theory Spec2Isabelle
  imports Main
begin

section \<open>Grid and block dimension counts (gpu.c: read\_sizes\_from\_set .. create\_kernel)\<close>

text \<open>
  The user-specified sizes are a union map \<open>{ kernel[id] -> type[sizes] }\<close>, possibly
  absent (a NULL pointer).  Only the tuple related to a given kernel id and type name is
  ever looked at, so the union map is a partial function from (id, type name) to the
  integer tuple, and the singleton set returned by \<open>extract_sizes\<close> is that tuple.
\<close>

type_synonym size_map = "(int \<times> string \<Rightarrow> int list option) option"

definition extract_sizes :: "size_map \<Rightarrow> string \<Rightarrow> int \<Rightarrow> int list option" where
  "extract_sizes sizes type kid =
     (case sizes of None \<Rightarrow> None | Some m \<Rightarrow> m (kid, type))"

text \<open>
  The entries of the tuple are integers of any size.  \<open>isl_val_get_num_si\<close> gives an
  entry as a \<open>long\<close> (64 bits); for an entry that does not fit it reports an error and
  gives 0.  The result is stored in an \<open>int\<close>, which keeps its low 32 bits in two's
  complement.
\<close>

definition isl_val_get_num_si :: "int \<Rightarrow> int" where
  "isl_val_get_num_si v = (if - (2 ^ 63) \<le> v \<and> v < 2 ^ 63 then v else 0)"

definition int_of_long :: "int \<Rightarrow> int" where
  "int_of_long x = (x + 2 ^ 31) mod 2 ^ 32 - 2 ^ 31"

text \<open>
  \<open>read_sizes_from_set(set, sizes, len)\<close>: nothing happens on a NULL set; otherwise
  \<open>*len\<close> is lowered to the dimension of the set and the first \<open>*len\<close> entries of
  \<open>sizes\<close> are overwritten.  The pair returned is the updated array and \<open>*len\<close>.
\<close>

fun read_sizes_from_set :: "int list option \<Rightarrow> int list \<Rightarrow> int \<Rightarrow> int list \<times> int" where
  "read_sizes_from_set None sizes len = (sizes, len)"
| "read_sizes_from_set (Some tuple) sizes len =
     (let dim = int (length tuple);
          len' = (if dim < len then dim else len)
      in (fold (\<lambda>i s. s[i := int_of_long (isl_val_get_num_si (tuple ! i))]) [0..<nat len'] sizes,
          len'))"

text \<open>
  An array reference group carries an optional private tile and an optional shared tile
  (NULL pointers when absent) and the index of its last shared schedule dimension.
  The tile geometry lives outside gpu.c; a tile is a value of an opaque type \<open>'tile\<close>.
  \<open>array_size\<close> is \<open>local->array->size\<close>, the size of an array element in bytes.
\<close>

record 'tile gpu_array_ref_group =
  private_tile :: "'tile option"
  shared_tile :: "'tile option"
  last_shared :: int

record 'tile gpu_local_array_info =
  array_size :: int
  force_private :: bool
  groups :: "'tile gpu_array_ref_group list"

text \<open>
  The kernel.  \<open>n_array\<close> is the length of \<open>array\<close>, \<open>n_group\<close> of a local array
  the length of its \<open>groups\<close>; \<open>max_shared_memory\<close> is
  \<open>kernel->options->max_shared_memory\<close>.  The fields \<open>id\<close> and \<open>tile_len\<close> of the
  source are \<open>kid\<close> and \<open>kernel_tile_len\<close> here; \<open>grid_dim\<close> has two entries and
  \<open>block_dim\<close> three.
\<close>

record 'tile ppcg_kernel =
  kid :: int
  kernel_tile_len :: int
  n_parallel :: int
  n_grid :: int
  n_block :: int
  grid_dim :: "int list"
  block_dim :: "int list"
  max_shared_memory :: int
  any_force_private :: bool
  array :: "'tile gpu_local_array_info list"

definition read_block_sizes :: "'tile ppcg_kernel \<Rightarrow> size_map \<Rightarrow> 'tile ppcg_kernel" where
  "read_block_sizes kern sizes =
     (let k1 = (if n_block kern > 3 then kern\<lparr>n_block := 3\<rparr> else kern);
          k2 = (if n_block k1 = 1 then k1\<lparr>block_dim := (block_dim k1)[0 := 512]\<rparr>
                else if n_block k1 = 2
                then k1\<lparr>block_dim := (block_dim k1)[0 := 32, 1 := 16]\<rparr>
                else k1\<lparr>block_dim := (block_dim k1)[0 := 32, 1 := 4, 2 := 4]\<rparr>);
          size = extract_sizes sizes ''block'' (kid k2);
          (dims, len) = read_sizes_from_set size (block_dim k2) (n_block k2)
      in k2\<lparr>block_dim := dims, n_block := len\<rparr>)"

definition read_grid_sizes :: "'tile ppcg_kernel \<Rightarrow> size_map \<Rightarrow> 'tile ppcg_kernel" where
  "read_grid_sizes kern sizes =
     (let k1 = (if n_grid kern > 2 then kern\<lparr>n_grid := 2\<rparr> else kern);
          k2 = (if n_grid k1 = 1 then k1\<lparr>grid_dim := (grid_dim k1)[0 := 32768]\<rparr>
                else k1\<lparr>grid_dim := (grid_dim k1)[0 := 256, 1 := 256]\<rparr>);
          size = extract_sizes sizes ''grid'' (kid k2);
          (dims, len) = read_sizes_from_set size (grid_dim k2) (n_grid k2)
      in k2\<lparr>grid_dim := dims, n_grid := len\<rparr>)"

text \<open>
  \<open>read_grid_and_block_sizes\<close> also records the sizes in \<open>gen->used_sizes\<close> for
  diagnostics (\<open>set_used_sizes\<close>); that does not touch the kernel.
\<close>

definition read_grid_and_block_sizes :: "'tile ppcg_kernel \<Rightarrow> size_map \<Rightarrow> 'tile ppcg_kernel" where
  "read_grid_and_block_sizes kern sizes = read_grid_sizes (read_block_sizes kern sizes) sizes"

text \<open>
  A band node is seen here through the coincidence flags of its members.
  \<open>n_outer_coincidence\<close> counts the members up to the first one that is not coincident.
\<close>

type_synonym band = "bool list"

fun n_outer_coincidence :: "band \<Rightarrow> int" where
  "n_outer_coincidence [] = 0"
| "n_outer_coincidence (c # cs) = (if \<not> c then 0 else 1 + n_outer_coincidence cs)"

text \<open>
  The part of \<open>create_kernel\<close> that fills in the dimension counts: \<open>node\<close> is the band
  selected for the blocks, \<open>node_thread\<close> the band under the "thread" mark.  The
  structure is allocated zeroed (\<open>isl_calloc_type\<close>); \<open>local_arrays\<close> is what
  \<open>ppcg_kernel_create_local_arrays\<close> sets up and \<open>max_shared\<close> the option value.
\<close>

definition create_kernel_dims ::
  "band \<Rightarrow> band \<Rightarrow> int \<Rightarrow> size_map \<Rightarrow> int \<Rightarrow> 'tile gpu_local_array_info list \<Rightarrow> 'tile ppcg_kernel" where
  "create_kernel_dims node node_thread kernel_id sizes max_shared local_arrays =
     read_grid_and_block_sizes
       \<lparr>kid = kernel_id,
        kernel_tile_len = int (length node),
        n_parallel = n_outer_coincidence node,
        n_grid = n_outer_coincidence node,
        n_block = n_outer_coincidence node_thread,
        grid_dim = [0, 0],
        block_dim = [0, 0, 0],
        max_shared_memory = max_shared,
        any_force_private = False,
        array = local_arrays\<rparr>
       sizes"

text \<open>
  \<open>read_tile_sizes(gen, &tile_len)\<close>: \<open>tile_len\<close> entries with the default tile size
  \<open>gen->options->tile_size\<close>, overwritten by the user's tuple for the kernel; the pair
  returned is the array and the updated \<open>tile_len\<close>.
\<close>

definition read_tile_sizes :: "int \<Rightarrow> size_map \<Rightarrow> int \<Rightarrow> int \<Rightarrow> int list \<times> int" where
  "read_tile_sizes default_tile_size sizes kernel_id tlen =
     (let tile_size = replicate (nat tlen) default_tile_size;
          size = extract_sizes sizes ''tile'' kernel_id
      in read_sizes_from_set size tile_size tlen)"

text \<open>
  \<open>mark_outer_permutable\<close>, as far as the dimension counts go.  \<open>node\<close> is the band
  selected by \<open>band_select_outer_band\<close> (a leaf is the band without members).  The band
  is split to the number of tile sizes; tiling keeps the coincidence flags of the
  members on the tile band, which \<open>create_kernel\<close> maps to the blocks, and on the
  point band under the "thread" mark.  \<open>gen->kernel_id\<close> names the user's sizes and
  becomes the id of the kernel.
\<close>

definition mark_outer_permutable_dims ::
  "band \<Rightarrow> int \<Rightarrow> int \<Rightarrow> size_map \<Rightarrow> int \<Rightarrow> 'tile gpu_local_array_info list \<Rightarrow> 'tile ppcg_kernel" where
  "mark_outer_permutable_dims node default_tile_size kernel_id sizes max_shared local_arrays =
     (let tlen = int (length node);
          (tile_size, tlen) = read_tile_sizes default_tile_size sizes kernel_id tlen;
          node = (if tlen < int (length node) then take (nat tlen) node else node);
          kern = create_kernel_dims node node kernel_id sizes max_shared local_arrays
      in kern\<lparr>kernel_tile_len := tlen\<rparr>)"

section \<open>Shared memory budget (gpu.c: check\_shared\_memory\_bound)\<close>

text \<open>
  \<open>isl_val_mul_ui\<close> takes an \<open>unsigned long\<close>; the element size is an \<open>int\<close> and is
  converted on the way in (64-bit \<open>unsigned long\<close>).
\<close>

definition ulong_of_int :: "int \<Rightarrow> int" where
  "ulong_of_int x = x mod 2 ^ 64"

text \<open>
  The footprint of a shared tile.  \<open>tsize\<close> stands for \<open>gpu_array_tile_size\<close>, which
  is defined outside gpu.c and returns the number of elements of the tile.
\<close>

definition footprint :: "('tile \<Rightarrow> int) \<Rightarrow> int \<Rightarrow> 'tile \<Rightarrow> int" where
  "footprint tsize esz t = tsize t * ulong_of_int esz"

text \<open>
  The inner loop over the groups of one array, threading \<open>left\<close>; the result is the
  updated group list together with the final value of \<open>left\<close>.
\<close>

fun check_groups ::
  "('tile \<Rightarrow> int) \<Rightarrow> int \<Rightarrow> int \<Rightarrow> 'tile gpu_array_ref_group list
     \<Rightarrow> 'tile gpu_array_ref_group list \<times> int" where
  "check_groups tsize esz left [] = ([], left)"
| "check_groups tsize esz left (g # gs) =
     (if private_tile g \<noteq> None then
        (let (gs', left') = check_groups tsize esz left gs in (g # gs', left'))
      else case shared_tile g of
        None \<Rightarrow> (let (gs', left') = check_groups tsize esz left gs in (g # gs', left'))
      | Some t \<Rightarrow>
          (let size = footprint tsize esz t in
           if size \<le> left then
             (let (gs', left') = check_groups tsize esz (left - size) gs in (g # gs', left'))
           else
             (let (gs', left') = check_groups tsize esz left gs
              in (g\<lparr>shared_tile := None\<rparr> # gs', left'))))"

text \<open>The outer loop over the arrays of the kernel.\<close>

fun check_arrays ::
  "('tile \<Rightarrow> int) \<Rightarrow> int \<Rightarrow> 'tile gpu_local_array_info list
     \<Rightarrow> 'tile gpu_local_array_info list \<times> int" where
  "check_arrays tsize left [] = ([], left)"
| "check_arrays tsize left (a # as) =
     (let (gs', left') = check_groups tsize (array_size a) left (groups a);
          (as', left'') = check_arrays tsize left' as
      in (a\<lparr>groups := gs'\<rparr> # as', left''))"

definition check_shared_memory_bound ::
  "('tile \<Rightarrow> int) \<Rightarrow> 'tile ppcg_kernel \<Rightarrow> 'tile ppcg_kernel" where
  "check_shared_memory_bound tsize kern =
     (if max_shared_memory kern < 0 then kern
      else kern\<lparr>array := fst (check_arrays tsize (max_shared_memory kern) (array kern))\<rparr>)"

text \<open>
  Vocabulary for the statements about the budget.  The groups of a kernel in encounter
  order, each with the element size of its array; the groups that count against the
  budget, which are the groups mapped to shared memory (a shared tile and no private
  tile: a group with a private tile is placed in private memory, whether or not it
  also holds a shared tile); the sum of the footprints of a selection of groups; the
  number of groups that hold a shared tile in one list and none in the other.
\<close>

definition flat_groups ::
  "'tile gpu_local_array_info list \<Rightarrow> (int \<times> 'tile gpu_array_ref_group) list" where
  "flat_groups as = concat (map (\<lambda>a. map (\<lambda>g. (array_size a, g)) (groups a)) as)"

definition in_shared :: "'tile gpu_array_ref_group \<Rightarrow> bool" where
  "in_shared g = (private_tile g = None \<and> shared_tile g \<noteq> None)"

definition group_footprint :: "('tile \<Rightarrow> int) \<Rightarrow> int \<times> 'tile gpu_array_ref_group \<Rightarrow> int" where
  "group_footprint tsize eg =
     (case shared_tile (snd eg) of None \<Rightarrow> 0 | Some t \<Rightarrow> footprint tsize (fst eg) t)"

definition total_footprint ::
  "('tile \<Rightarrow> int) \<Rightarrow> ('tile gpu_array_ref_group \<Rightarrow> bool)
     \<Rightarrow> (int \<times> 'tile gpu_array_ref_group) list \<Rightarrow> int" where
  "total_footprint tsize sel egs =
     sum_list (map (group_footprint tsize) (filter (\<lambda>eg. sel (snd eg)) egs))"

definition evicted_count ::
  "(int \<times> 'tile gpu_array_ref_group) list \<Rightarrow> (int \<times> 'tile gpu_array_ref_group) list \<Rightarrow> nat" where
  "evicted_count before after =
     length (filter (\<lambda>(eg, eg'). shared_tile (snd eg) \<noteq> None \<and> shared_tile (snd eg') = None)
               (zip before after))"

definition evict :: "int \<times> 'tile gpu_array_ref_group \<Rightarrow> int \<times> 'tile gpu_array_ref_group" where
  "evict eg = (fst eg, (snd eg)\<lparr>shared_tile := None\<rparr>)"

definition drop_private ::
  "'tile gpu_local_array_info list \<Rightarrow> 'tile gpu_local_array_info list" where
  "drop_private as =
     map (\<lambda>a. a\<lparr>groups := filter (\<lambda>g. private_tile g = None) (groups a)\<rparr>) as"

text \<open>
  The greedy rule, read off the result: position by position, a group is evicted
  exactly when it counts against the budget and its footprint exceeds what the groups
  kept before it have left of \<open>left\<close>; \<open>left'\<close> is what remains at the end.
\<close>

definition greedy_spec ::
  "('tile \<Rightarrow> int) \<Rightarrow> int \<Rightarrow> (int \<times> 'tile gpu_array_ref_group) list
     \<Rightarrow> (int \<times> 'tile gpu_array_ref_group) list \<Rightarrow> int \<Rightarrow> bool" where
  "greedy_spec tsize left xs ys left' =
     (length ys = length xs \<and>
      left' = left - total_footprint tsize in_shared ys \<and>
      (\<forall>i<length xs. ys ! i =
         (if in_shared (snd (xs ! i)) \<and>
             left - total_footprint tsize in_shared (take i ys) < group_footprint tsize (xs ! i)
          then evict (xs ! i) else xs ! i)))"


text \<open>What the budget pass may do to a group: the private tile stays, and a group
  with a private tile stays as it is.\<close>

definition private_kept :: "'tile gpu_array_ref_group \<Rightarrow> 'tile gpu_array_ref_group \<Rightarrow> bool" where
  "private_kept g g' = (private_tile g' = private_tile g \<and> (private_tile g \<noteq> None \<longrightarrow> g' = g))"


text \<open>
  Example kernels; tiles are given by their number of elements.  \<open>greedy_kernel\<close> has
  three groups of 7, 5 and 5 bytes and a budget of 10 bytes; \<open>greedy_alternative\<close> are
  its arrays with the shared tile of the first group removed.
\<close>

text \<open>
  A kernel with two arrays and a budget of 1000 bytes; tiles are given by their number
  of elements.  The third group of the first array holds both a private and a shared
  tile.
\<close>

definition greedy_kernel :: "int ppcg_kernel" where
  "greedy_kernel =
     \<lparr>kid = 0, kernel_tile_len = 1, n_parallel = 1, n_grid = 1, n_block = 1,
      grid_dim = [32768, 0], block_dim = [512, 0, 0],
      max_shared_memory = 10, any_force_private = False,
      array =
        [\<lparr>array_size = 1, force_private = False,
          groups = [\<lparr>private_tile = None, shared_tile = Some 7, last_shared = 0\<rparr>,
                    \<lparr>private_tile = None, shared_tile = Some 5, last_shared = 0\<rparr>,
                    \<lparr>private_tile = None, shared_tile = Some 5, last_shared = 0\<rparr>]\<rparr>]\<rparr>"

definition greedy_alternative :: "int gpu_local_array_info list" where
  "greedy_alternative =
        [\<lparr>array_size = 1, force_private = False,
          groups = [\<lparr>private_tile = None, shared_tile = None, last_shared = 0\<rparr>,
                    \<lparr>private_tile = None, shared_tile = Some 5, last_shared = 0\<rparr>,
                    \<lparr>private_tile = None, shared_tile = Some 5, last_shared = 0\<rparr>]\<rparr>]"

definition budget_kernel :: "int ppcg_kernel" where
  "budget_kernel =
     \<lparr>kid = 0, kernel_tile_len = 2, n_parallel = 2, n_grid = 2, n_block = 2,
      grid_dim = [256, 256], block_dim = [32, 16],
      max_shared_memory = 1000, any_force_private = False,
      array =
        [\<lparr>array_size = 4, force_private = False,
          groups = [\<lparr>private_tile = None, shared_tile = Some 100, last_shared = 1\<rparr>,
                    \<lparr>private_tile = None, shared_tile = Some 200, last_shared = 1\<rparr>,
                    \<lparr>private_tile = Some 2, shared_tile = Some 5000, last_shared = 1\<rparr>]\<rparr>,
         \<lparr>array_size = 8, force_private = False,
          groups = [\<lparr>private_tile = None, shared_tile = Some 50, last_shared = 0\<rparr>,
                    \<lparr>private_tile = None, shared_tile = None, last_shared = 0\<rparr>]\<rparr>]\<rparr>"

section \<open>Memory hierarchy schedule (gpu.c: insert\_even .. body\_schedule)\<close>

text \<open>
  The generator state.  \<open>gen_kernel\<close> is \<open>gen->kernel\<close>.
\<close>

record 'tile gpu_gen =
  tile_first :: int
  shared_len :: int
  thread_tiled_len :: int
  first_unroll :: int
  gen_kernel :: "'tile ppcg_kernel"

text \<open>
  \<open>insert_even(gen, space, pos, val)\<close> is a map from the \<open>shared_len\<close> shared tile
  dimensions to \<open>2 * (shared_len - tile_first) + 1\<close> dimensions.  It is single-valued, so it
  is given as a function on the loop values: the even positions are 0 except position
  \<open>2 * pos\<close>, which is \<open>val\<close>; the odd position \<open>2 * i + 1\<close> carries loop
  \<open>tile_first + i\<close>, or 0 from level \<open>pos\<close> on when \<open>pos \<ge> 0\<close>.
\<close>

definition insert_even :: "'tile gpu_gen \<Rightarrow> int \<Rightarrow> int \<Rightarrow> int list \<Rightarrow> int list" where
  "insert_even gen pos val s =
     (let n = nat (shared_len gen - tile_first gen) in
      map (\<lambda>m. if even m then (if int (m div 2) = pos then val else 0)
                else if pos < 0 \<or> int (m div 2) < pos
                     then s ! (nat (tile_first gen) + m div 2) else 0)
          [0..<2 * n + 1])"

text \<open>
  The schedule under construction is a union of maps, one per added piece.  A piece is
  identified by the tuple it schedules (the statement instances, a copy named "read" or
  "write" with the group as user pointer, or "sync") and by the arguments \<open>pos\<close> and
  \<open>val\<close> of the \<open>insert_even\<close> map it is composed with.  A group is referred to by
  the index of its array and its index in that array.
\<close>

datatype stmt_id = Domain_stmt | Copy_stmt bool "nat \<times> nat" | Sync_stmt

record sched_entry =
  entry_id :: stmt_id
  entry_pos :: int
  entry_val :: int

definition entry_schedule :: "'tile gpu_gen \<Rightarrow> sched_entry \<Rightarrow> int list \<Rightarrow> int list" where
  "entry_schedule gen e s = insert_even gen (entry_pos e) (entry_val e) s"

definition add_sync_schedule :: "sched_entry list \<Rightarrow> int \<Rightarrow> int \<Rightarrow> sched_entry list" where
  "add_sync_schedule res pos val =
     res @ [\<lparr>entry_id = Sync_stmt, entry_pos = pos, entry_val = val\<rparr>]"

text \<open>
  \<open>add_group_schedule\<close>.  \<open>copy_empty grp read\<close> says whether the access relation to
  be copied (built by \<open>gpu_array_ref_group_access_relation\<close> and
  \<open>remove_local_accesses\<close> from relations outside this model) is empty.  A failing
  \<open>assert(pos >= 0)\<close> is the result \<open>None\<close>.
\<close>

definition add_group_schedule ::
  "'tile gpu_gen \<Rightarrow> (nat \<times> nat \<Rightarrow> bool \<Rightarrow> bool) \<Rightarrow> sched_entry list
     \<Rightarrow> 'tile gpu_array_ref_group \<Rightarrow> nat \<times> nat \<Rightarrow> bool \<Rightarrow> int \<Rightarrow> int
     \<Rightarrow> sched_entry list option" where
  "add_group_schedule gen copy_empty res grp_info grp read k s =
     (if copy_empty grp read then Some res
      else
        let pos = last_shared grp_info + 1 - tile_first gen in
        if pos < 0 then None
        else
          let val = (if read then - 2 - k
                     else if private_tile grp_info \<noteq> None then 1 + k
                     else 1 + s + 1 + k);
              res1 = res @ [\<lparr>entry_id = Copy_stmt read grp, entry_pos = pos, entry_val = val\<rparr>];
              n = shared_len gen - tile_first gen
          in if read then
               (if private_tile grp_info = None then Some (add_sync_schedule res1 n (- 1))
                else Some res1)
             else if pos = 0 then Some res1
             else if pos = n \<and> private_tile grp_info \<noteq> None then Some res1
             else Some (add_sync_schedule res1 pos (2 * s + 2)))"

text \<open>
  The iteration of \<open>body_schedule\<close>: over the groups of array \<open>i\<close> from index \<open>j\<close> on, and
  over the arrays from index \<open>i\<close> on, threading the schedule and the counter \<open>k\<close>.
\<close>

fun body_groups ::
  "'tile gpu_gen \<Rightarrow> (nat \<times> nat \<Rightarrow> bool \<Rightarrow> bool) \<Rightarrow> int \<Rightarrow> nat \<Rightarrow> nat
     \<Rightarrow> 'tile gpu_array_ref_group list \<Rightarrow> sched_entry list \<times> int
     \<Rightarrow> (sched_entry list \<times> int) option" where
  "body_groups gen copy_empty s i j [] (res, k) = Some (res, k)"
| "body_groups gen copy_empty s i j (g # gs) (res, k) =
     (if private_tile g = None \<and> shared_tile g = None
      then body_groups gen copy_empty s i (Suc j) gs (res, k)
      else case add_group_schedule gen copy_empty res g (i, j) False k s of
        None \<Rightarrow> None
      | Some res1 \<Rightarrow>
          (case add_group_schedule gen copy_empty res1 g (i, j) True k s of
             None \<Rightarrow> None
           | Some res2 \<Rightarrow> body_groups gen copy_empty s i (Suc j) gs (res2, k + 1)))"

fun body_arrays ::
  "'tile gpu_gen \<Rightarrow> (nat \<times> nat \<Rightarrow> bool \<Rightarrow> bool) \<Rightarrow> int \<Rightarrow> nat
     \<Rightarrow> 'tile gpu_local_array_info list \<Rightarrow> sched_entry list \<times> int
     \<Rightarrow> (sched_entry list \<times> int) option" where
  "body_arrays gen copy_empty s i [] st = Some st"
| "body_arrays gen copy_empty s i (a # as) st =
     (case body_groups gen copy_empty s i 0 (groups a) st of
        None \<Rightarrow> None
      | Some st' \<Rightarrow> body_arrays gen copy_empty s (Suc i) as st')"

definition n_groups :: "'tile gpu_local_array_info list \<Rightarrow> int" where
  "n_groups as = sum_list (map (\<lambda>a. int (length (groups a))) as)"

definition body_schedule ::
  "'tile gpu_gen \<Rightarrow> (nat \<times> nat \<Rightarrow> bool \<Rightarrow> bool) \<Rightarrow> sched_entry list option" where
  "body_schedule gen copy_empty =
     (let s = n_groups (array (gen_kernel gen));
          res = [\<lparr>entry_id = Domain_stmt, entry_pos = - 1, entry_val = 0\<rparr>]
      in case body_arrays gen copy_empty s 0 (array (gen_kernel gen)) (res, 0) of
           None \<Rightarrow> None
         | Some (res', k) \<Rightarrow>
             Some (add_sync_schedule res' (shared_len gen - tile_first gen) (1 + s)))"

text \<open>
  Vocabulary for the statements about the ranks.  A group is tiled when it holds a
  private or a shared tile; the number of a group is the number of tiled groups met
  before it in encounter order.
\<close>

definition tiled :: "'tile gpu_array_ref_group \<Rightarrow> bool" where
  "tiled g = (private_tile g \<noteq> None \<or> shared_tile g \<noteq> None)"

definition group_at :: "'tile gpu_local_array_info list \<Rightarrow> nat \<times> nat \<Rightarrow> 'tile gpu_array_ref_group" where
  "group_at as grp = groups (as ! fst grp) ! snd grp"

definition valid_group :: "'tile gpu_local_array_info list \<Rightarrow> nat \<times> nat \<Rightarrow> bool" where
  "valid_group as grp = (fst grp < length as \<and> snd grp < length (groups (as ! fst grp)))"

definition group_number :: "'tile gpu_local_array_info list \<Rightarrow> nat \<times> nat \<Rightarrow> int" where
  "group_number as grp =
     int (length (filter tiled
            (concat (map groups (take (fst grp) as)) @ take (snd grp) (groups (as ! fst grp)))))"

definition read_entry :: "sched_entry \<Rightarrow> bool" where
  "read_entry e = (case entry_id e of Copy_stmt rd grp \<Rightarrow> rd | _ \<Rightarrow> False)"

definition private_write_entry :: "'tile gpu_local_array_info list \<Rightarrow> sched_entry \<Rightarrow> bool" where
  "private_write_entry as e =
     (case entry_id e of
        Copy_stmt rd grp \<Rightarrow> \<not> rd \<and> private_tile (group_at as grp) \<noteq> None
      | _ \<Rightarrow> False)"

definition shared_write_entry :: "'tile gpu_local_array_info list \<Rightarrow> sched_entry \<Rightarrow> bool" where
  "shared_write_entry as e =
     (case entry_id e of
        Copy_stmt rd grp \<Rightarrow> \<not> rd \<and> private_tile (group_at as grp) = None
      | _ \<Rightarrow> False)"

text \<open>What every piece of the schedule built by \<open>body_schedule\<close> looks like.\<close>

definition entry_ok :: "'tile gpu_gen \<Rightarrow> int \<Rightarrow> sched_entry \<Rightarrow> bool" where
  "entry_ok gen s e =
     (let as = array (gen_kernel gen) in
      case entry_id e of
        Domain_stmt \<Rightarrow> entry_pos e = - 1 \<and> entry_val e = 0
      | Sync_stmt \<Rightarrow> entry_val e = - 1 \<or> entry_val e = 1 + s \<or> entry_val e = 2 * s + 2
      | Copy_stmt rd grp \<Rightarrow>
          valid_group as grp \<and> tiled (group_at as grp) \<and>
          entry_pos e = last_shared (group_at as grp) + 1 - tile_first gen \<and>
          entry_val e =
            (if rd then - 2 - group_number as grp
             else if private_tile (group_at as grp) \<noteq> None then 1 + group_number as grp
             else s + 2 + group_number as grp))"

text \<open>
  The groups for which \<open>add_group_schedule\<close> schedules a synchronization after the
  copy-out, and that synchronization.
\<close>

definition needs_write_sync ::
  "'tile gpu_gen \<Rightarrow> (nat \<times> nat \<Rightarrow> bool \<Rightarrow> bool) \<Rightarrow> nat \<times> nat \<Rightarrow> bool" where
  "needs_write_sync gen copy_empty grp =
     (let g = group_at (array (gen_kernel gen)) grp;
          pos = last_shared g + 1 - tile_first gen
      in valid_group (array (gen_kernel gen)) grp \<and> tiled g \<and> \<not> copy_empty grp False \<and>
         pos \<noteq> 0 \<and> \<not> (pos = shared_len gen - tile_first gen \<and> private_tile g \<noteq> None))"

definition write_sync :: "'tile gpu_gen \<Rightarrow> int \<Rightarrow> nat \<times> nat \<Rightarrow> sched_entry" where
  "write_sync gen s grp =
     \<lparr>entry_id = Sync_stmt,
      entry_pos = last_shared (group_at (array (gen_kernel gen)) grp) + 1 - tile_first gen,
      entry_val = 2 * s + 2\<rparr>"

text \<open>
  The number of groups that hold a tile, which are the groups that the schedule
  covers; the place of a group among all groups in encounter order; the
  synchronization that \<open>add_group_schedule\<close> adds after the copy-out of a group when
  \<open>body_schedule\<close> calls it.
\<close>

definition n_tiled :: "'tile gpu_local_array_info list \<Rightarrow> int" where
  "n_tiled as = int (length (filter tiled (concat (map groups as))))"

definition group_index :: "'tile gpu_local_array_info list \<Rightarrow> nat \<times> nat \<Rightarrow> int" where
  "group_index as grp =
     int (length (concat (map groups (take (fst grp) as)) @ take (snd grp) (groups (as ! fst grp))))"

definition final_barrier :: "'tile gpu_gen \<Rightarrow> nat \<times> nat \<Rightarrow> sched_entry" where
  "final_barrier gen grp = write_sync gen (n_groups (array (gen_kernel gen))) grp"

text \<open>
  A generator state whose kernel has a group without a tile before a group with a
  shared tile.
\<close>

definition untiled_gen :: "int gpu_gen" where
  "untiled_gen = \<lparr>tile_first = 0, shared_len = 2, thread_tiled_len = 6, first_unroll = - 1,
     gen_kernel =
       \<lparr>kid = 0, kernel_tile_len = 1, n_parallel = 1, n_grid = 1, n_block = 1,
        grid_dim = [32768, 0], block_dim = [512, 0, 0],
        max_shared_memory = 1000, any_force_private = False,
        array = [\<lparr>array_size = 4, force_private = False,
                  groups = [\<lparr>private_tile = None, shared_tile = None, last_shared = 0\<rparr>,
                            \<lparr>private_tile = None, shared_tile = Some 8, last_shared = 0\<rparr>]\<rparr>]\<rparr>\<rparr>"

text \<open>
  Two generator states for the examples: \<open>rank_gen\<close> schedules the kernel with two
  arrays from above, \<open>private_gen\<close> a kernel whose single group holds a private tile.
  \<open>all_copied\<close> says that no access relation to be copied is empty.
\<close>

definition rank_gen :: "int gpu_gen" where
  "rank_gen = \<lparr>tile_first = 1, shared_len = 3, thread_tiled_len = 7, first_unroll = - 1,
     gen_kernel = budget_kernel\<rparr>"

definition private_gen :: "int gpu_gen" where
  "private_gen = \<lparr>tile_first = 0, shared_len = 2, thread_tiled_len = 6, first_unroll = - 1,
     gen_kernel =
       \<lparr>kid = 0, kernel_tile_len = 1, n_parallel = 1, n_grid = 1, n_block = 1,
        grid_dim = [32768, 0], block_dim = [512, 0, 0],
        max_shared_memory = 1000, any_force_private = False,
        array = [\<lparr>array_size = 4, force_private = False,
                  groups = [\<lparr>private_tile = Some 1, shared_tile = None, last_shared = 1\<rparr>]\<rparr>]\<rparr>\<rparr>"

definition all_copied :: "nat \<times> nat \<Rightarrow> bool \<Rightarrow> bool" where
  "all_copied grp rd = False"

text \<open>The schedule pieces that \<open>body_schedule\<close> builds for \<open>rank_gen\<close>.\<close>

definition rank_entries :: "sched_entry list" where
  "rank_entries =
     [\<lparr>entry_id = Domain_stmt, entry_pos = - 1, entry_val = 0\<rparr>,
      \<lparr>entry_id = Copy_stmt False (0, 0), entry_pos = 1, entry_val = 7\<rparr>,
      \<lparr>entry_id = Sync_stmt, entry_pos = 1, entry_val = 12\<rparr>,
      \<lparr>entry_id = Copy_stmt True (0, 0), entry_pos = 1, entry_val = - 2\<rparr>,
      \<lparr>entry_id = Sync_stmt, entry_pos = 2, entry_val = - 1\<rparr>,
      \<lparr>entry_id = Copy_stmt False (0, 1), entry_pos = 1, entry_val = 8\<rparr>,
      \<lparr>entry_id = Sync_stmt, entry_pos = 1, entry_val = 12\<rparr>,
      \<lparr>entry_id = Copy_stmt True (0, 1), entry_pos = 1, entry_val = - 3\<rparr>,
      \<lparr>entry_id = Sync_stmt, entry_pos = 2, entry_val = - 1\<rparr>,
      \<lparr>entry_id = Copy_stmt False (0, 2), entry_pos = 1, entry_val = 3\<rparr>,
      \<lparr>entry_id = Sync_stmt, entry_pos = 1, entry_val = 12\<rparr>,
      \<lparr>entry_id = Copy_stmt True (0, 2), entry_pos = 1, entry_val = - 4\<rparr>,
      \<lparr>entry_id = Copy_stmt False (1, 0), entry_pos = 0, entry_val = 10\<rparr>,
      \<lparr>entry_id = Copy_stmt True (1, 0), entry_pos = 0, entry_val = - 5\<rparr>,
      \<lparr>entry_id = Sync_stmt, entry_pos = 2, entry_val = - 1\<rparr>,
      \<lparr>entry_id = Sync_stmt, entry_pos = 2, entry_val = 6\<rparr>]"

section \<open>Schedule constraints (gpu.c: compute\_schedule)\<close>

text \<open>
  A union map is the set of pairs it relates.  \<open>'i\<close> is the type of statement
  instances, \<open>'t\<close> that of instances tagged with a reference, \<open>'p\<close> that of parameter
  valuations.  The scop comes from the front end; only the relations that
  \<open>compute_schedule\<close> reads are kept.
\<close>

record ('i, 't, 'p) ppcg_scop =
  scop_domain :: "'i set"
  scop_context :: "'p set"
  dep_flow :: "('i \<times> 'i) set"
  dep_false :: "('i \<times> 'i) set"
  dep_forced :: "('i \<times> 'i) set"
  independence :: "('i \<times> 'i) set"
  tagged_dep_flow :: "('t \<times> 't) set"
  tagged_dep_order :: "('t \<times> 't) set"

text \<open>
  The constraints handed to the scheduler.  \<open>isl_schedule_constraints_on_domain\<close>
  starts with a universe context and empty relations; the conditional validity
  constraints are a pair (condition, validity).
\<close>

record ('i, 't, 'p) isl_schedule_constraints =
  sc_domain :: "'i set"
  sc_context :: "'p set"
  sc_validity :: "('i \<times> 'i) set"
  sc_coincidence :: "('i \<times> 'i) set"
  sc_proximity :: "('i \<times> 'i) set"
  sc_conditional_validity :: "('t \<times> 't) set \<times> ('t \<times> 't) set"

definition isl_schedule_constraints_on_domain :: "'i set \<Rightarrow> ('i, 't, 'p) isl_schedule_constraints" where
  "isl_schedule_constraints_on_domain d =
     \<lparr>sc_domain = d, sc_context = UNIV, sc_validity = {}, sc_coincidence = {},
      sc_proximity = {}, sc_conditional_validity = ({}, {})\<rparr>"

text \<open>
  \<open>compute_schedule\<close> up to the call of the scheduler: the value of \<open>sc\<close> passed to
  \<open>isl_schedule_constraints_compute_schedule\<close>.  \<open>live_range_reordering\<close> is the
  option, \<open>array_order\<close> is \<open>gen->prog->array_order\<close>.  Coalescing does not change
  the pairs a relation holds.
\<close>

definition compute_schedule_constraints ::
  "bool \<Rightarrow> ('i, 't, 'p) ppcg_scop \<Rightarrow> ('i \<times> 'i) set \<Rightarrow> ('i, 't, 'p) isl_schedule_constraints" where
  "compute_schedule_constraints live_range_reordering scop array_order =
     (let sc = isl_schedule_constraints_on_domain (scop_domain scop);
          sc = sc\<lparr>sc_context := scop_context scop\<rparr>
      in if live_range_reordering then
           (let sc = sc\<lparr>sc_conditional_validity := (tagged_dep_flow scop, tagged_dep_order scop)\<rparr>;
                proximity = dep_flow scop;
                validity = proximity;
                validity = validity \<union> dep_forced scop;
                proximity = proximity \<union> dep_false scop;
                coincidence = validity;
                coincidence = coincidence - independence scop;
                coincidence = coincidence \<union> array_order
            in sc\<lparr>sc_validity := validity, sc_coincidence := coincidence,
                  sc_proximity := proximity\<rparr>)
         else
           (let dep_raw = dep_flow scop;
                dep = dep_false scop;
                dep = dep \<union> dep_raw
            in sc\<lparr>sc_validity := dep, sc_coincidence := dep, sc_proximity := dep\<rparr>))"

text \<open>A scop with four statement instances, numbered, for the examples.\<close>

definition order_scop :: "(nat, nat, nat) ppcg_scop" where
  "order_scop =
     \<lparr>scop_domain = {0, 1, 2, 3}, scop_context = UNIV,
      dep_flow = {(0, 1), (1, 2)}, dep_false = {(1, 0)}, dep_forced = {(2, 3)},
      independence = {(1, 2)}, tagged_dep_flow = {(0, 1)}, tagged_dep_order = {(1, 0)}\<rparr>"

section \<open>Affine constraints and basic maps\<close>

text \<open>
  The part of the integer set library that \<open>tile\<close>, \<open>wrap\<close> and \<open>permutation\<close> use.
  A constraint is an affine expression in the input dimensions, the output dimensions
  and the existentially quantified dimensions of a basic map, required to be zero (an
  equality) or non-negative (an inequality).  The parameters of the space play no part
  in these maps and are left out.  Every operation returns NULL (\<open>None\<close>) on a NULL
  argument and on a position out of range.
\<close>

datatype isl_dim_type = isl_dim_in | isl_dim_out

record isl_space =
  n_in :: nat
  n_out :: nat

record isl_constraint =
  c_eq :: bool
  c_in :: "int list"
  c_out :: "int list"
  c_div :: "int list"
  c_const :: int

definition isl_equality_alloc :: "isl_space \<Rightarrow> isl_constraint option" where
  "isl_equality_alloc ls =
     Some \<lparr>c_eq = True, c_in = replicate (n_in ls) 0, c_out = replicate (n_out ls) 0,
           c_div = [], c_const = 0\<rparr>"

definition isl_inequality_alloc :: "isl_space \<Rightarrow> isl_constraint option" where
  "isl_inequality_alloc ls =
     Some \<lparr>c_eq = False, c_in = replicate (n_in ls) 0, c_out = replicate (n_out ls) 0,
           c_div = [], c_const = 0\<rparr>"

fun isl_constraint_set_coefficient_si ::
  "isl_constraint option \<Rightarrow> isl_dim_type \<Rightarrow> nat \<Rightarrow> int \<Rightarrow> isl_constraint option" where
  "isl_constraint_set_coefficient_si None type pos v = None"
| "isl_constraint_set_coefficient_si (Some c) isl_dim_in pos v =
     (if pos < length (c_in c) then Some (c\<lparr>c_in := (c_in c)[pos := v]\<rparr>) else None)"
| "isl_constraint_set_coefficient_si (Some c) isl_dim_out pos v =
     (if pos < length (c_out c) then Some (c\<lparr>c_out := (c_out c)[pos := v]\<rparr>) else None)"

definition isl_constraint_set_constant_si :: "isl_constraint option \<Rightarrow> int \<Rightarrow> isl_constraint option" where
  "isl_constraint_set_constant_si c v = map_option (\<lambda>c'. c'\<lparr>c_const := v\<rparr>) c"

record isl_basic_map =
  bm_space :: isl_space
  bm_n_div :: nat
  bm_constraints :: "isl_constraint list"

definition isl_basic_map_universe :: "isl_space \<Rightarrow> isl_basic_map option" where
  "isl_basic_map_universe space = Some \<lparr>bm_space = space, bm_n_div = 0, bm_constraints = []\<rparr>"

definition isl_basic_map_add_constraint ::
  "isl_basic_map option \<Rightarrow> isl_constraint option \<Rightarrow> isl_basic_map option" where
  "isl_basic_map_add_constraint bmap c =
     (case bmap of
        None \<Rightarrow> None
      | Some b \<Rightarrow>
          (case c of
             None \<Rightarrow> None
           | Some c' \<Rightarrow> Some (b\<lparr>bm_constraints := bm_constraints b @ [c']\<rparr>)))"

text \<open>
  Projecting out \<open>n\<close> output dimensions from position \<open>first\<close> turns them into
  existentially quantified dimensions.
\<close>

definition isl_basic_map_project_out ::
  "isl_basic_map option \<Rightarrow> nat \<Rightarrow> nat \<Rightarrow> isl_basic_map option" where
  "isl_basic_map_project_out bmap first n =
     (case bmap of
        None \<Rightarrow> None
      | Some b \<Rightarrow>
          if first + n \<le> n_out (bm_space b) then
            Some \<lparr>bm_space = (bm_space b)\<lparr>n_out := n_out (bm_space b) - n\<rparr>,
                  bm_n_div = bm_n_div b + n,
                  bm_constraints =
                    map (\<lambda>c. c\<lparr>c_out := take first (c_out c) @ drop (first + n) (c_out c),
                               c_div := c_div c @ take n (drop first (c_out c))\<rparr>)
                        (bm_constraints b)\<rparr>
          else None)"

text \<open>A map is a finite union of basic maps.\<close>

type_synonym isl_map = "isl_basic_map list"

definition isl_map_from_basic_map :: "isl_basic_map option \<Rightarrow> isl_map option" where
  "isl_map_from_basic_map bmap = map_option (\<lambda>b. [b]) bmap"

text \<open>The pairs of integer points that a constraint, a basic map and a map hold.\<close>

definition dot :: "int list \<Rightarrow> int list \<Rightarrow> int" where
  "dot c x = sum_list (map2 (*) c x)"

definition constraint_holds :: "isl_constraint \<Rightarrow> int list \<Rightarrow> int list \<Rightarrow> int list \<Rightarrow> bool" where
  "constraint_holds c inp out ex =
     (let v = dot (c_in c) inp + dot (c_out c) out + dot (c_div c) ex + c_const c
      in if c_eq c then v = 0 else 0 \<le> v)"

definition in_basic_map :: "isl_basic_map \<Rightarrow> int list \<Rightarrow> int list \<Rightarrow> bool" where
  "in_basic_map b inp out =
     (length inp = n_in (bm_space b) \<and> length out = n_out (bm_space b) \<and>
      (\<exists>ex. length ex = bm_n_div b \<and>
            (\<forall>c\<in>set (bm_constraints b). constraint_holds c inp out ex)))"

definition in_map :: "isl_map \<Rightarrow> int list \<Rightarrow> int list \<Rightarrow> bool" where
  "in_map m inp out = (\<exists>b\<in>set m. in_basic_map b inp out)"

definition map_domain :: "isl_map \<Rightarrow> int list set" where
  "map_domain m = {inp. \<exists>out. in_map m inp out}"

section \<open>Tiling and wrapping maps (gpu.c: tile, wrap, permutation)\<close>

text \<open>
  \<open>tile(dim, len, first, tile_len, tile_size)\<close>.  Each loop adds its constraints
  to \<open>bmap\<close>; each loop body is a function of the loop index and \<open>bmap\<close>.
\<close>

definition tile_copy_step ::
  "isl_space \<Rightarrow> nat \<Rightarrow> nat \<Rightarrow> nat \<Rightarrow> isl_basic_map option \<Rightarrow> isl_basic_map option" where
  "tile_copy_step ls first tile_len i bmap =
     (let j = (if i < first then i else i + tile_len);
          k = (if i < first then i else i + 2 * tile_len);
          c = isl_equality_alloc ls;
          c = isl_constraint_set_coefficient_si c isl_dim_in j (- 1);
          c = isl_constraint_set_coefficient_si c isl_dim_out k 1
      in isl_basic_map_add_constraint bmap c)"

definition tile_split_step ::
  "isl_space \<Rightarrow> nat \<Rightarrow> nat \<Rightarrow> int list \<Rightarrow> nat \<Rightarrow> isl_basic_map option \<Rightarrow> isl_basic_map option" where
  "tile_split_step ls first tile_len tile_size i bmap =
     (let c = isl_equality_alloc ls;
          c = isl_constraint_set_coefficient_si c isl_dim_in (first + i) (- 1);
          c = isl_constraint_set_coefficient_si c isl_dim_out (first + i) (tile_size ! i);
          c = isl_constraint_set_coefficient_si c isl_dim_out (first + i + tile_len) 1;
          bmap = isl_basic_map_add_constraint bmap c;
          c = isl_inequality_alloc ls;
          c = isl_constraint_set_coefficient_si c isl_dim_out (first + i + tile_len) 1;
          bmap = isl_basic_map_add_constraint bmap c;
          c = isl_inequality_alloc ls;
          c = isl_constraint_set_coefficient_si c isl_dim_out (first + i + tile_len) (- 1);
          c = isl_constraint_set_constant_si c (tile_size ! i - 1)
      in isl_basic_map_add_constraint bmap c)"

definition tile :: "nat \<Rightarrow> nat \<Rightarrow> nat \<Rightarrow> int list \<Rightarrow> isl_map option" where
  "tile len first tile_len tile_size =
     (let ls = \<lparr>n_in = len, n_out = len + tile_len\<rparr>;
          bmap = isl_basic_map_universe ls;
          bmap = fold (tile_copy_step ls first tile_len) [0..<len - tile_len] bmap;
          bmap = fold (tile_split_step ls first tile_len tile_size) [0..<tile_len] bmap
      in isl_map_from_basic_map bmap)"

text \<open>\<open>wrap(dim, len, first, wrap_len, wrap_size)\<close>, in the same way.\<close>

definition wrap_copy_step ::
  "isl_space \<Rightarrow> nat \<Rightarrow> nat \<Rightarrow> nat \<Rightarrow> isl_basic_map option \<Rightarrow> isl_basic_map option" where
  "wrap_copy_step ls first wrap_len i bmap =
     (let k = (if i < first + wrap_len then i else i + 2 * wrap_len);
          c = isl_equality_alloc ls;
          c = isl_constraint_set_coefficient_si c isl_dim_in i (- 1);
          c = isl_constraint_set_coefficient_si c isl_dim_out k 1
      in isl_basic_map_add_constraint bmap c)"

definition wrap_split_step ::
  "isl_space \<Rightarrow> nat \<Rightarrow> nat \<Rightarrow> int list \<Rightarrow> nat \<Rightarrow> isl_basic_map option \<Rightarrow> isl_basic_map option" where
  "wrap_split_step ls first wrap_len wrap_size i bmap =
     (let c = isl_equality_alloc ls;
          c = isl_constraint_set_coefficient_si c isl_dim_out (first + i) (- 1);
          c = isl_constraint_set_coefficient_si c isl_dim_out (first + wrap_len + i) 1;
          c = isl_constraint_set_coefficient_si c isl_dim_out (first + 2 * wrap_len + i)
                (wrap_size ! i);
          bmap = isl_basic_map_add_constraint bmap c;
          c = isl_inequality_alloc ls;
          c = isl_constraint_set_coefficient_si c isl_dim_out (first + wrap_len + i) 1;
          bmap = isl_basic_map_add_constraint bmap c;
          c = isl_inequality_alloc ls;
          c = isl_constraint_set_coefficient_si c isl_dim_out (first + wrap_len + i) (- 1);
          c = isl_constraint_set_constant_si c (wrap_size ! i - 1)
      in isl_basic_map_add_constraint bmap c)"

definition wrap :: "nat \<Rightarrow> nat \<Rightarrow> nat \<Rightarrow> int list \<Rightarrow> isl_map option" where
  "wrap len first wrap_len wrap_size =
     (let ls = \<lparr>n_in = len, n_out = len + 2 * wrap_len\<rparr>;
          bmap = isl_basic_map_universe ls;
          bmap = fold (wrap_copy_step ls first wrap_len) [0..<len] bmap;
          bmap = fold (wrap_split_step ls first wrap_len wrap_size) [0..<wrap_len] bmap;
          bmap = isl_basic_map_project_out bmap (first + 2 * wrap_len) wrap_len
      in isl_map_from_basic_map bmap)"

text \<open>\<open>permutation(dim, pos, len)\<close>: input dimension \<open>i\<close> is output dimension \<open>pos[i]\<close>.\<close>

definition permutation_step ::
  "isl_space \<Rightarrow> nat list \<Rightarrow> nat \<Rightarrow> isl_basic_map option \<Rightarrow> isl_basic_map option" where
  "permutation_step ls pos i bmap =
     (let c = isl_equality_alloc ls;
          c = isl_constraint_set_coefficient_si c isl_dim_in i (- 1);
          c = isl_constraint_set_coefficient_si c isl_dim_out (pos ! i) 1
      in isl_basic_map_add_constraint bmap c)"

definition permutation :: "nat list \<Rightarrow> nat \<Rightarrow> isl_map option" where
  "permutation pos len =
     (let ls = \<lparr>n_in = len, n_out = len\<rparr>;
          bmap = isl_basic_map_universe ls;
          bmap = fold (permutation_step ls pos) [0..<len] bmap
      in isl_map_from_basic_map bmap)"

text \<open>A constraint of a basic map without existentially quantified dimensions.\<close>

definition wf_constraint :: "isl_space \<Rightarrow> isl_constraint \<Rightarrow> bool" where
  "wf_constraint ls c = (length (c_in c) = n_in ls \<and> length (c_out c) = n_out ls \<and> c_div c = [])"

text \<open>
  The relation that \<open>tile\<close> is to describe, coordinate by coordinate: the coordinates
  before \<open>first\<close> and after the tiled ones are copied, and tiled coordinate \<open>i\<close> is
  split into \<open>out ! (first + i)\<close> and \<open>out ! (first + i + tile_len)\<close>.
\<close>

definition tile_relation :: "nat \<Rightarrow> nat \<Rightarrow> nat \<Rightarrow> int list \<Rightarrow> int list \<Rightarrow> int list \<Rightarrow> bool" where
  "tile_relation len first tlen tile_size inp out =
     (length inp = len \<and> length out = len + tlen \<and>
      (\<forall>i<len - tlen. out ! (if i < first then i else i + 2 * tlen) =
                       inp ! (if i < first then i else i + tlen)) \<and>
      (\<forall>i<tlen. inp ! (first + i) = tile_size ! i * out ! (first + i) + out ! (first + i + tlen) \<and>
                0 \<le> out ! (first + i + tlen) \<and> out ! (first + i + tlen) \<le> tile_size ! i - 1))"

text \<open>The image of a point under tiling, computed with division and remainder.\<close>

definition tile_point :: "nat \<Rightarrow> nat \<Rightarrow> nat \<Rightarrow> int list \<Rightarrow> int list \<Rightarrow> int list" where
  "tile_point len first tlen tile_size inp =
     map (\<lambda>k. if k < first then inp ! k
              else if k < first + tlen then inp ! k div tile_size ! (k - first)
              else if k < first + 2 * tlen
                   then inp ! (k - tlen) mod tile_size ! (k - tlen - first)
              else inp ! (k - tlen))
         [0..<len + tlen]"

text \<open>
  The relation described by the constraints of \<open>wrap\<close> before the projection, on
  \<open>len + 2 * wlen\<close> output coordinates, and a point of it for a given input point.
\<close>

definition wrap_relation :: "nat \<Rightarrow> nat \<Rightarrow> nat \<Rightarrow> int list \<Rightarrow> int list \<Rightarrow> int list \<Rightarrow> bool" where
  "wrap_relation len first wlen wrap_size inp out =
     (length inp = len \<and> length out = len + 2 * wlen \<and>
      (\<forall>i<len. out ! (if i < first + wlen then i else i + 2 * wlen) = inp ! i) \<and>
      (\<forall>i<wlen. - out ! (first + i) + out ! (first + wlen + i) +
                   wrap_size ! i * out ! (first + 2 * wlen + i) = 0 \<and>
                0 \<le> out ! (first + wlen + i) \<and> out ! (first + wlen + i) \<le> wrap_size ! i - 1))"

definition wrap_point :: "nat \<Rightarrow> nat \<Rightarrow> nat \<Rightarrow> int list \<Rightarrow> int list \<Rightarrow> int list" where
  "wrap_point len first wlen wrap_size inp =
     map (\<lambda>k. if k < first + wlen then inp ! k
              else if k < first + 2 * wlen
                   then inp ! (k - wlen) mod wrap_size ! (k - wlen - first)
              else if k < first + 3 * wlen
                   then inp ! (k - 2 * wlen) div wrap_size ! (k - 2 * wlen - first)
              else inp ! (k - 2 * wlen))
         [0..<len + 2 * wlen]"

text \<open>A projected constraint, as \<open>isl_basic_map_project_out\<close> builds it.\<close>

definition project_constraint :: "nat \<Rightarrow> nat \<Rightarrow> isl_constraint \<Rightarrow> isl_constraint" where
  "project_constraint first n c =
     c\<lparr>c_out := take first (c_out c) @ drop (first + n) (c_out c),
       c_div := c_div c @ take n (drop first (c_out c))\<rparr>"

section \<open>Interchange for unrolling (gpu.c: check\_unroll .. interchange\_for\_unroll)\<close>

text \<open>
  An affine expression is seen through the coefficients of its input dimensions; it
  involves an input dimension when that coefficient is not zero.  A
  \<open>isl_multi_aff\<close> has \<open>ma_n_in\<close> input dimensions and one affine expression per
  output dimension.
\<close>

record isl_aff =
  aff_coeff :: "int list"
  aff_const :: int

record isl_multi_aff =
  ma_n_in :: nat
  ma_affs :: "isl_aff list"

definition isl_aff_involves_dims :: "isl_aff \<Rightarrow> nat \<Rightarrow> bool" where
  "isl_aff_involves_dims aff j = (j < length (aff_coeff aff) \<and> aff_coeff aff ! j \<noteq> 0)"

text \<open>
  \<open>check_unroll\<close>, called for each piece of an access: sets \<open>unroll[j]\<close> for every input
  dimension \<open>j\<close> involved in an index expression.  The pieces are functions of the
  schedule space, so \<open>ma_n_in\<close> is \<open>thread_tiled_len\<close>, the length of \<open>unroll\<close>.
\<close>

definition check_unroll :: "isl_multi_aff \<Rightarrow> int list \<Rightarrow> int list" where
  "check_unroll ma unroll =
     fold (\<lambda>aff u. fold (\<lambda>j u'. if isl_aff_involves_dims aff j then u'[j := 1] else u')
                        [0..<ma_n_in ma] u)
          (ma_affs ma) unroll"

definition remove_private_tiles :: "'tile gpu_gen \<Rightarrow> 'tile gpu_gen" where
  "remove_private_tiles gen =
     gen\<lparr>gen_kernel := (gen_kernel gen)
       \<lparr>array :=
          map (\<lambda>local. if force_private local then local
                        else local\<lparr>groups := map (\<lambda>g. g\<lparr>private_tile := None\<rparr>) (groups local)\<rparr>)
              (array (gen_kernel gen))\<rparr>\<rparr>"

text \<open>
  The first loop nest of \<open>interchange_for_unroll\<close>: the flags after all groups with a
  private tile have been scanned.  \<open>access_pieces (i, j)\<close> are the pieces of the access
  relation of group \<open>j\<close> of array \<open>i\<close>, expressed in the schedule dimensions (computed
  by the reference group code and the set library from \<open>sched\<close>).
\<close>

definition unroll_flags :: "'tile gpu_gen \<Rightarrow> (nat \<times> nat \<Rightarrow> isl_multi_aff list) \<Rightarrow> int list" where
  "unroll_flags gen access_pieces =
     fold (\<lambda>i u.
             fold (\<lambda>j u'.
                     if private_tile (groups (array (gen_kernel gen) ! i) ! j) = None then u'
                     else fold check_unroll (access_pieces (i, j)) u')
                  [0..<length (groups (array (gen_kernel gen) ! i))] u)
          [0..<length (array (gen_kernel gen))]
          (replicate (nat (thread_tiled_len gen)) 0)"

text \<open>
  The passes that fill \<open>perm\<close>: the positions \<open>is\<close> selected by \<open>sel\<close> get the next
  values of the counter \<open>j\<close>.
\<close>

definition perm_assign :: "(nat \<Rightarrow> bool) \<Rightarrow> nat list \<Rightarrow> nat list \<times> nat \<Rightarrow> nat list \<times> nat" where
  "perm_assign sel is st =
     fold (\<lambda>i (perm, j). if sel i then (perm[i := j], j + 1) else (perm, j)) is st"

text \<open>
  A schedule is the set of pairs (statement instance, schedule point) it relates;
  composing it with a map on the range.
\<close>

definition apply_range :: "('d \<times> int list) set \<Rightarrow> isl_map option \<Rightarrow> ('d \<times> int list) set option" where
  "apply_range sched m =
     (case m of None \<Rightarrow> None
      | Some m' \<Rightarrow> Some {(d, out). \<exists>v. (d, v) \<in> sched \<and> in_map m' v out})"

text \<open>
  \<open>interchange_for_unroll\<close>.  The result is the updated generator state (the field
  \<open>first_unroll\<close> and the private tiles of the kernel) and the schedule returned.
  Computing the hidden equalities of the schedule does not change the pairs it holds.
\<close>

definition interchange_for_unroll ::
  "'tile gpu_gen \<Rightarrow> (nat \<times> nat \<Rightarrow> isl_multi_aff list) \<Rightarrow> ('d \<times> int list) set
     \<Rightarrow> 'tile gpu_gen \<times> ('d \<times> int list) set option" where
  "interchange_for_unroll gen access_pieces sched =
     (let kern = gen_kernel gen;
          len = shared_len gen + n_parallel kern + n_block kern;
          gen = gen\<lparr>first_unroll := - 1\<rparr>;
          unroll = unroll_flags gen access_pieces
      in if \<not> list_ex (\<lambda>i. unroll ! i \<noteq> 0) [nat (shared_len gen)..<nat len]
         then (gen, Some sched)
         else if list_ex (\<lambda>i. unroll ! i \<noteq> 0) [nat len..<nat (thread_tiled_len gen)]
         then (gen, Some sched)
         else if any_force_private kern then (remove_private_tiles gen, Some sched)
         else
           (let st = perm_assign (\<lambda>i. True) [0..<nat (shared_len gen)]
                       (replicate (nat (thread_tiled_len gen)) 0, 0);
                st = perm_assign (\<lambda>i. unroll ! i = 0)
                       [nat (shared_len gen)..<nat (thread_tiled_len gen)] st;
                gen = gen\<lparr>first_unroll := int (snd st) - shared_len gen\<rparr>;
                st = perm_assign (\<lambda>i. unroll ! i \<noteq> 0) [nat (shared_len gen)..<nat len] st;
                permute = permutation (fst st) (nat (thread_tiled_len gen))
            in (gen, apply_range sched permute)))"

text \<open>
  A generator state for the examples: array 0 is marked \<open>force_private\<close>, array 1 is
  not; both have one group with a private tile.  The window of the thread tile and
  parallel dimensions is \<open>2..3\<close> out of six schedule dimensions, and the access of the group
  of array 1 involves dimension 2.
\<close>

definition unroll_gen :: "int gpu_gen" where
  "unroll_gen = \<lparr>tile_first = 0, shared_len = 2, thread_tiled_len = 6, first_unroll = 0,
     gen_kernel =
       \<lparr>kid = 0, kernel_tile_len = 1, n_parallel = 1, n_grid = 1, n_block = 1,
        grid_dim = [32768, 0], block_dim = [512, 0, 0],
        max_shared_memory = 1000, any_force_private = True,
        array = [\<lparr>array_size = 4, force_private = True,
                  groups = [\<lparr>private_tile = Some 1, shared_tile = None, last_shared = 1\<rparr>]\<rparr>,
                 \<lparr>array_size = 4, force_private = False,
                  groups = [\<lparr>private_tile = Some 2, shared_tile = None, last_shared = 1\<rparr>]\<rparr>]\<rparr>\<rparr>"

definition unroll_pieces :: "nat \<times> nat \<Rightarrow> isl_multi_aff list" where
  "unroll_pieces grp =
     (if grp = (1, 0)
      then [\<lparr>ma_n_in = 6, ma_affs = [\<lparr>aff_coeff = [0, 0, 1, 0, 0, 0], aff_const = 0\<rparr>]\<rparr>]
      else [\<lparr>ma_n_in = 6, ma_affs = []\<rparr>])"

definition unroll_sched :: "(nat \<times> int list) set" where
  "unroll_sched = {(0, [0, 0, 0, 0, 0, 0]), (1, [0, 0, 1, 0, 0, 0])}"

section \<open>Effective grid size (gpu.c: set\_schedule\_modulo, extract\_size, extract\_grid\_size)\<close>

text \<open>
  The sets are taken at a fixed value of the program parameters.  The block filter
  built by \<open>set_schedule_modulo\<close> equates the block identifiers to the partial schedule
  of the band modulo the sizes, member by member; it is given by the tuple of block
  identifiers that it assigns to a statement instance.  For a band without members
  the tuple is empty and the filter is the universe.
\<close>

definition set_schedule_modulo :: "nat \<Rightarrow> ('i \<Rightarrow> int list) \<Rightarrow> int list \<Rightarrow> 'i \<Rightarrow> int list" where
  "set_schedule_modulo n_member partial_schedule sizes x =
     map (\<lambda>k. partial_schedule x ! k mod sizes ! k) [0..<n_member]"

text \<open>
  The maximum of a set of integer tuples in one dimension is defined where the set has
  a point (\<open>isl_set_dim_max\<close> yields a function with an empty domain for the empty
  set).
\<close>

definition isl_set_dim_max :: "int list set \<Rightarrow> nat \<Rightarrow> int option" where
  "isl_set_dim_max S i = (if S = {} then None else Some (Max ((\<lambda>p. p ! i) ` S)))"

text \<open>
  \<open>extract_size(set, context)\<close> for a set of dimension \<open>n\<close>.  Coalescing and
  simplifying a bound with respect to the context do not change its value.
\<close>

definition extract_size :: "int list set \<Rightarrow> nat \<Rightarrow> int option list" where
  "extract_size S n =
     map (\<lambda>i. case isl_set_dim_max S i of None \<Rightarrow> None | Some bound \<Rightarrow> Some (bound + 1))
         [0..<n]"

text \<open>
  \<open>extract_grid_size(kernel, domain)\<close>, with \<open>kernel->block_filter\<close> as an argument:
  the grid is the set of block identifier tuples for which the filter keeps an
  instance of the domain.
\<close>

definition extract_grid_size ::
  "'tile ppcg_kernel \<Rightarrow> ('i \<Rightarrow> int list) \<Rightarrow> 'i set \<Rightarrow> int option list" where
  "extract_grid_size kern block_filter insts =
     (let grid = block_filter ` insts in extract_size grid (nat (n_grid kern)))"

text \<open>A band with one member whose partial schedule is the iteration itself.\<close>

definition identity_schedule :: "int \<Rightarrow> int list" where
  "identity_schedule x = [x]"

section \<open>Properties of the dimension counts\<close>

lemma read_sizes_from_set_len: "snd (read_sizes_from_set s d n) \<le> n"
  by (cases s) (simp_all add: Let_def)

lemma read_sizes_from_set_len_eq:
  "(case s of None \<Rightarrow> True | Some t \<Rightarrow> n \<le> int (length t)) \<Longrightarrow> snd (read_sizes_from_set s d n) = n"
  by (cases s) (simp_all add: Let_def)

lemma n_grid_read_block_sizes: "n_grid (read_block_sizes k sizes) = n_grid k"
  by (simp add: read_block_sizes_def Let_def split: prod.splits)

lemma n_block_read_grid_sizes: "n_block (read_grid_sizes k sizes) = n_block k"
  by (simp add: read_grid_sizes_def Let_def split: prod.splits)

lemma n_grid_read_grid_sizes: "n_grid (read_grid_sizes k sizes) \<le> 2"
proof -
  define k1 where "k1 = (if n_grid k > 2 then k\<lparr>n_grid := 2\<rparr> else k)"
  define k2 where "k2 = (if n_grid k1 = 1 then k1\<lparr>grid_dim := (grid_dim k1)[0 := 32768]\<rparr>
                else k1\<lparr>grid_dim := (grid_dim k1)[0 := 256, 1 := 256]\<rparr>)"
  have "n_grid k1 \<le> 2" by (simp add: k1_def)
  then have le: "n_grid k2 \<le> 2" by (simp add: k2_def)
  have "n_grid (read_grid_sizes k sizes) =
        snd (read_sizes_from_set (extract_sizes sizes ''grid'' (kid k2)) (grid_dim k2) (n_grid k2))"
    by (simp add: read_grid_sizes_def Let_def k1_def k2_def split: prod.splits)
  also have "\<dots> \<le> n_grid k2" by (rule read_sizes_from_set_len)
  finally show ?thesis using le by linarith
qed

lemma n_block_read_block_sizes: "n_block (read_block_sizes k sizes) \<le> 3"
proof -
  define k1 where "k1 = (if n_block k > 3 then k\<lparr>n_block := 3\<rparr> else k)"
  define k2 where "k2 = (if n_block k1 = 1 then k1\<lparr>block_dim := (block_dim k1)[0 := 512]\<rparr>
                else if n_block k1 = 2
                then k1\<lparr>block_dim := (block_dim k1)[0 := 32, 1 := 16]\<rparr>
                else k1\<lparr>block_dim := (block_dim k1)[0 := 32, 1 := 4, 2 := 4]\<rparr>)"
  have "n_block k1 \<le> 3" by (simp add: k1_def)
  then have le: "n_block k2 \<le> 3" by (simp add: k2_def)
  have "n_block (read_block_sizes k sizes) =
        snd (read_sizes_from_set (extract_sizes sizes ''block'' (kid k2)) (block_dim k2) (n_block k2))"
    by (simp add: read_block_sizes_def Let_def k1_def k2_def split: prod.splits)
  also have "\<dots> \<le> n_block k2" by (rule read_sizes_from_set_len)
  finally show ?thesis using le by linarith
qed

lemma n_grid_read_grid_sizes_full:
  assumes "2 \<le> n_grid k"
    and "case extract_sizes sizes ''grid'' (kid k) of None \<Rightarrow> True | Some t \<Rightarrow> 2 \<le> length t"
  shows "n_grid (read_grid_sizes k sizes) = 2"
proof -
  define k1 where "k1 = (if n_grid k > 2 then k\<lparr>n_grid := 2\<rparr> else k)"
  define k2 where "k2 = (if n_grid k1 = 1 then k1\<lparr>grid_dim := (grid_dim k1)[0 := 32768]\<rparr>
                else k1\<lparr>grid_dim := (grid_dim k1)[0 := 256, 1 := 256]\<rparr>)"
  have "n_grid k1 = 2" using assms(1) by (simp add: k1_def)
  then have two: "n_grid k2 = 2" by (simp add: k2_def)
  have id: "kid k2 = kid k" by (simp add: k1_def k2_def)
  have "n_grid (read_grid_sizes k sizes) =
        snd (read_sizes_from_set (extract_sizes sizes ''grid'' (kid k2)) (grid_dim k2) (n_grid k2))"
    by (simp add: read_grid_sizes_def Let_def k1_def k2_def split: prod.splits)
  also have "\<dots> = n_grid k2"
    by (rule read_sizes_from_set_len_eq) (use assms(2) id two in \<open>auto split: option.splits\<close>)
  finally show ?thesis using two by simp
qed

lemma n_outer_coincidence_take:
  "n_outer_coincidence (take m node) = min (int m) (n_outer_coincidence node)"
proof (induction node arbitrary: m)
  case Nil
  then show ?case by simp
next
  case (Cons c cs)
  show ?case
  proof (cases m)
    case 0
    have "0 \<le> n_outer_coincidence (c # cs)"
      by (induction cs arbitrary: c) auto
    with 0 show ?thesis by simp
  next
    case (Suc k)
    with Cons.IH [of k] show ?thesis by auto
  qed
qed

lemma n_outer_coincidence_le_length: "n_outer_coincidence node \<le> int (length node)"
  by (induction node) auto

lemma snd_read_tile_sizes:
  "snd (read_tile_sizes d sizes kernel_id n) =
     (case extract_sizes sizes ''tile'' kernel_id of
        None \<Rightarrow> n
      | Some t \<Rightarrow> if int (length t) < n then int (length t) else n)"
  by (simp add: read_tile_sizes_def Let_def split: option.splits)

lemma mark_outer_permutable_dims_eq:
  "\<exists>node'. mark_outer_permutable_dims node d kernel_id sizes max_shared local_arrays =
     (create_kernel_dims node' node' kernel_id sizes max_shared local_arrays)
       \<lparr>kernel_tile_len := snd (read_tile_sizes d sizes kernel_id (int (length node)))\<rparr> \<and>
     node' = take (nat (snd (read_tile_sizes d sizes kernel_id (int (length node))))) node"
proof -
  obtain ts tl where r: "read_tile_sizes d sizes kernel_id (int (length node)) = (ts, tl)"
    by (cases "read_tile_sizes d sizes kernel_id (int (length node))")
  have "tl \<le> int (length node)"
    using snd_read_tile_sizes [of d sizes kernel_id "int (length node)"] r
    by (auto split: option.splits if_splits)
  then have "(if tl < int (length node) then take (nat tl) node else node) = take (nat tl) node"
    by auto
  then show ?thesis
    by (simp add: mark_outer_permutable_dims_def r Let_def)
qed

lemma create_kernel_dims_two:
  fixes local_arrays :: "'tile gpu_local_array_info list"
  assumes two: "2 \<le> n_outer_coincidence node"
    and user: "case extract_sizes sizes ''grid'' kernel_id of None \<Rightarrow> True | Some t \<Rightarrow> 2 \<le> length t"
  shows "n_grid (create_kernel_dims node node_thread kernel_id sizes max_shared local_arrays) = 2"
proof -
  define k0 :: "'tile ppcg_kernel" where "k0 = \<lparr>kid = kernel_id,
        kernel_tile_len = int (length node),
        n_parallel = n_outer_coincidence node,
        n_grid = n_outer_coincidence node,
        n_block = n_outer_coincidence node_thread,
        grid_dim = [0, 0],
        block_dim = [0, 0, 0],
        max_shared_memory = max_shared,
        any_force_private = False,
        array = local_arrays\<rparr>"
  define kb where "kb = read_block_sizes k0 sizes"
  have "n_grid kb = n_grid k0" by (simp add: kb_def n_grid_read_block_sizes)
  then have g: "2 \<le> n_grid kb" using two by (simp add: k0_def)
  have "kid kb = kid k0"
    by (simp add: kb_def read_block_sizes_def Let_def split: prod.splits)
  then have "kid kb = kernel_id" by (simp add: k0_def)
  with user have u: "case extract_sizes sizes ''grid'' (kid kb) of None \<Rightarrow> True | Some t \<Rightarrow> 2 \<le> length t"
    by simp
  have "n_grid (read_grid_sizes kb sizes) = 2"
    by (rule n_grid_read_grid_sizes_full [OF g u])
  then show ?thesis
    by (simp add: create_kernel_dims_def read_grid_and_block_sizes_def kb_def k0_def)
qed

subsection \<open>C4\<close>

text \<open>
  C4 as stated promises three grid dimensions for a band with at least three outer
  coincident members.  \<open>read_grid_sizes\<close> caps the count at 2 (and only provides two
  defaults), so such a band yields two grid dimensions.
\<close>

theorem C4_three_coincident_members_counterexample:
  "3 \<le> n_outer_coincidence [True, True, True] \<and>
   n_grid (create_kernel_dims [True, True, True] [True] 0 None 49152 ([] :: unit gpu_local_array_info list)) \<noteq> 3 \<and>
   n_grid (mark_outer_permutable_dims [True, True, True] 32 0 None 49152
             ([] :: unit gpu_local_array_info list)) \<noteq> 3"
  by (simp add: mark_outer_permutable_dims_def read_tile_sizes_def create_kernel_dims_def
      read_grid_and_block_sizes_def read_grid_sizes_def read_block_sizes_def extract_sizes_def)

text \<open>
  C4 (amended): after \<open>read_grid_and_block_sizes\<close> the number of grid dimensions is at
  most 2 (hence at most 3) and the number of block dimensions is at most 3, for every
  kernel and every user-specified size map; and a selected band with at least three
  outer coincident members yields exactly 2 grid dimensions, unless the user gave for
  the kernel a tile size tuple or a grid size tuple with fewer than two entries.
\<close>

theorem C4_grid_and_block_dims_capped:
  fixes k :: "'tile ppcg_kernel" and local_arrays :: "'tile gpu_local_array_info list"
  shows "n_grid (read_grid_and_block_sizes k sizes) \<le> 2 \<and>
   n_block (read_grid_and_block_sizes k sizes) \<le> 3 \<and>
   n_grid (mark_outer_permutable_dims node default_tile_size kernel_id sizes max_shared
             local_arrays) \<le> 2 \<and>
   n_block (mark_outer_permutable_dims node default_tile_size kernel_id sizes max_shared
              local_arrays) \<le> 3 \<and>
   (3 \<le> n_outer_coincidence node \<longrightarrow>
    (case extract_sizes sizes ''tile'' kernel_id of None \<Rightarrow> True | Some t \<Rightarrow> 2 \<le> length t) \<longrightarrow>
    (case extract_sizes sizes ''grid'' kernel_id of None \<Rightarrow> True | Some t \<Rightarrow> 2 \<le> length t) \<longrightarrow>
    n_grid (mark_outer_permutable_dims node default_tile_size kernel_id sizes max_shared
              local_arrays) = 2)"
proof -
  let ?tl = "snd (read_tile_sizes default_tile_size sizes kernel_id (int (length node)))"
  let ?node = "take (nat ?tl) node"
  from mark_outer_permutable_dims_eq [of node default_tile_size kernel_id sizes max_shared local_arrays]
  have m: "mark_outer_permutable_dims node default_tile_size kernel_id sizes max_shared local_arrays =
     (create_kernel_dims ?node ?node kernel_id sizes max_shared local_arrays)\<lparr>kernel_tile_len := ?tl\<rparr>"
    by blast
  have g: "n_grid (read_grid_and_block_sizes k' sizes) \<le> 2" for k' :: "'tile ppcg_kernel"
    by (simp add: read_grid_and_block_sizes_def n_grid_read_grid_sizes)
  have b: "n_block (read_grid_and_block_sizes k' sizes) \<le> 3" for k' :: "'tile ppcg_kernel"
    by (simp add: read_grid_and_block_sizes_def n_block_read_grid_sizes n_block_read_block_sizes)
  have mg: "n_grid (mark_outer_permutable_dims node default_tile_size kernel_id sizes max_shared
             local_arrays) \<le> 2"
    unfolding m using g by (simp add: create_kernel_dims_def)
  have mb: "n_block (mark_outer_permutable_dims node default_tile_size kernel_id sizes max_shared
             local_arrays) \<le> 3"
    unfolding m using b by (simp add: create_kernel_dims_def)
  have two: "n_grid (mark_outer_permutable_dims node default_tile_size kernel_id sizes max_shared
              local_arrays) = 2"
    if three: "3 \<le> n_outer_coincidence node"
      and tile: "case extract_sizes sizes ''tile'' kernel_id of None \<Rightarrow> True | Some t \<Rightarrow> 2 \<le> length t"
      and grid: "case extract_sizes sizes ''grid'' kernel_id of None \<Rightarrow> True | Some t \<Rightarrow> 2 \<le> length t"
  proof -
    from three n_outer_coincidence_le_length [of node] have ln: "3 \<le> int (length node)" by linarith
    have "2 \<le> ?tl"
      using tile ln by (simp add: snd_read_tile_sizes split: option.splits)
    then have "2 \<le> int (nat ?tl)" by simp
    with three have "2 \<le> n_outer_coincidence ?node"
      by (simp add: n_outer_coincidence_take)
    from create_kernel_dims_two [OF this grid] show ?thesis
      unfolding m by simp
  qed
  from g b mg mb two show ?thesis by blast
qed

theorem C4_grid_and_block_dims_capped_witness:
  "3 \<le> n_outer_coincidence [True, True, True, False] \<and>
   extract_sizes (Some (\<lambda>key. if key = (7, ''grid'') then Some [16, 8] else None)) ''tile'' 7
     = None \<and>
   extract_sizes (Some (\<lambda>key. if key = (7, ''grid'') then Some [16, 8] else None)) ''grid'' 7
     = Some [16, 8] \<and>
   n_grid (mark_outer_permutable_dims [True, True, True, False] 32
             7 (Some (\<lambda>key. if key = (7, ''grid'') then Some [16, 8] else None))
             49152 ([] :: unit gpu_local_array_info list)) = 2"
  using C4_grid_and_block_dims_capped [where node = "[True, True, True, False]"
      and sizes = "Some (\<lambda>key. if key = (7, ''grid'') then Some [16, 8] else None)"
      and kernel_id = 7 and default_tile_size = 32 and max_shared = 49152
      and local_arrays = "[] :: unit gpu_local_array_info list"
      and k = "\<lparr>kid = 7, kernel_tile_len = 4, n_parallel = 3, n_grid = 3, n_block = 2,
        grid_dim = [0, 0], block_dim = [0, 0, 0], max_shared_memory = 49152,
        any_force_private = False, array = []\<rparr>"]
  by (simp add: extract_sizes_def)

section \<open>Properties of the shared memory budget\<close>

lemma total_footprint_Nil [simp]: "total_footprint ts sel [] = 0"
  by (simp add: total_footprint_def)

lemma total_footprint_Cons:
  "total_footprint ts sel (x # xs) =
     (if sel (snd x) then group_footprint ts x else 0) + total_footprint ts sel xs"
  by (simp add: total_footprint_def)

lemma total_footprint_append:
  "total_footprint ts sel (xs @ ys) = total_footprint ts sel xs + total_footprint ts sel ys"
  by (simp add: total_footprint_def)

lemma greedy_spec_Nil: "greedy_spec ts left [] [] left"
  by (simp add: greedy_spec_def)

lemma greedy_spec_append:
  assumes "greedy_spec ts left xs ys l1" and "greedy_spec ts l1 xs2 ys2 l2"
  shows "greedy_spec ts left (xs @ xs2) (ys @ ys2) l2"
proof -
  from assms have len: "length ys = length xs" "length ys2 = length xs2"
    and l1: "l1 = left - total_footprint ts in_shared ys"
    and l2: "l2 = l1 - total_footprint ts in_shared ys2"
    by (simp_all add: greedy_spec_def)
  have "(ys @ ys2) ! i =
         (if in_shared (snd ((xs @ xs2) ! i)) \<and>
             left - total_footprint ts in_shared (take i (ys @ ys2)) < group_footprint ts ((xs @ xs2) ! i)
          then evict ((xs @ xs2) ! i) else (xs @ xs2) ! i)" if "i < length (xs @ xs2)" for i
  proof (cases "i < length xs")
    case True
    with assms(1) len show ?thesis by (simp add: greedy_spec_def nth_append)
  next
    case False
    then have j: "i - length xs < length xs2" using that by simp
    from assms(2) j have "ys2 ! (i - length xs) =
         (if in_shared (snd (xs2 ! (i - length xs))) \<and>
             l1 - total_footprint ts in_shared (take (i - length xs) ys2) < group_footprint ts (xs2 ! (i - length xs))
          then evict (xs2 ! (i - length xs)) else xs2 ! (i - length xs))"
      by (simp add: greedy_spec_def)
    with False len l1 show ?thesis
      by (simp add: nth_append total_footprint_append algebra_simps)
  qed
  with len l1 l2 show ?thesis
    by (simp add: greedy_spec_def total_footprint_append)
qed

lemma greedy_spec_keep:
  assumes "\<not> in_shared (snd x) \<or> group_footprint ts x \<le> left"
    and "greedy_spec ts (left - (if in_shared (snd x) then group_footprint ts x else 0)) xs ys l"
  shows "greedy_spec ts left (x # xs) (x # ys) l"
proof -
  have "greedy_spec ts left [x] [x] (left - (if in_shared (snd x) then group_footprint ts x else 0))"
    using assms(1) by (auto simp add: greedy_spec_def total_footprint_Cons)
  from greedy_spec_append [OF this assms(2)] show ?thesis by simp
qed

lemma greedy_spec_evict:
  assumes "in_shared (snd x)" "left < group_footprint ts x"
    and "greedy_spec ts left xs ys l"
  shows "greedy_spec ts left (x # xs) (evict x # ys) l"
proof -
  have "\<not> in_shared (snd (evict x))" by (simp add: evict_def in_shared_def)
  then have "greedy_spec ts left [x] [evict x] left"
    using assms(1,2) by (auto simp add: greedy_spec_def total_footprint_Cons)
  from greedy_spec_append [OF this assms(3)] show ?thesis by simp
qed

lemma check_groups_spec:
  "check_groups ts esz left gs = (gs', left') \<Longrightarrow>
   greedy_spec ts left (map (Pair esz) gs) (map (Pair esz) gs') left'"
proof (induction gs arbitrary: left gs' left')
  case Nil
  then show ?case by (simp add: greedy_spec_Nil)
next
  case (Cons g gs)
  show ?case
  proof (cases "private_tile g \<noteq> None")
    case True
    then obtain r where r: "check_groups ts esz left gs = (r, left')" and g: "gs' = g # r"
      using Cons.prems by (auto split: prod.splits)
    from True have "\<not> in_shared (snd (esz, g))" by (simp add: in_shared_def)
    then show ?thesis using greedy_spec_keep [of "(esz, g)" ts left] Cons.IH [OF r] g by simp
  next
    case False
    note np = this
    show ?thesis
    proof (cases "shared_tile g")
      case None
      then obtain r where r: "check_groups ts esz left gs = (r, left')" and g: "gs' = g # r"
        using Cons.prems np by (auto split: prod.splits)
      from None have "\<not> in_shared (snd (esz, g))" by (simp add: in_shared_def)
      then show ?thesis using greedy_spec_keep [of "(esz, g)" ts left] Cons.IH [OF r] g by simp
    next
      case (Some t)
      then have sh: "in_shared (snd (esz, g))" and fp: "group_footprint ts (esz, g) = footprint ts esz t"
        using np by (simp_all add: in_shared_def group_footprint_def)
      show ?thesis
      proof (cases "footprint ts esz t \<le> left")
        case True
        then obtain r where r: "check_groups ts esz (left - footprint ts esz t) gs = (r, left')"
          and g: "gs' = g # r"
          using Cons.prems np Some by (auto split: prod.splits)
        show ?thesis
          using greedy_spec_keep [of "(esz, g)" ts left] Cons.IH [OF r] g sh fp True by simp
      next
        case False
        then obtain r where r: "check_groups ts esz left gs = (r, left')"
          and g: "gs' = g\<lparr>shared_tile := None\<rparr> # r"
          using Cons.prems np Some by (auto split: prod.splits)
        show ?thesis
          using greedy_spec_evict [of "(esz, g)" left ts] Cons.IH [OF r] g sh fp False
          by (simp add: evict_def)
      qed
    qed
  qed
qed

lemma flat_groups_Cons:
  "flat_groups (a # as) = map (Pair (array_size a)) (groups a) @ flat_groups as"
  by (simp add: flat_groups_def)

lemma check_arrays_spec:
  "check_arrays ts left as = (as', left') \<Longrightarrow>
   greedy_spec ts left (flat_groups as) (flat_groups as') left'"
proof (induction as arbitrary: left as' left')
  case Nil
  then show ?case by (simp add: greedy_spec_Nil flat_groups_def)
next
  case (Cons a as)
  obtain gs l1 where g: "check_groups ts (array_size a) left (groups a) = (gs, l1)"
    by (cases "check_groups ts (array_size a) left (groups a)")
  obtain r l2 where r: "check_arrays ts l1 as = (r, l2)"
    by (cases "check_arrays ts l1 as")
  from Cons.prems g r have eq: "as' = a\<lparr>groups := gs\<rparr> # r" "left' = l2" by simp_all
  show ?case
    using greedy_spec_append [OF check_groups_spec [OF g] Cons.IH [OF r]] eq
    by (simp add: flat_groups_Cons)
qed

lemma greedy_spec_prefix_fits:
  assumes "greedy_spec ts left xs ys l" and "0 \<le> left"
  shows "i \<le> length xs \<Longrightarrow> total_footprint ts in_shared (take i ys) \<le> left"
proof (induction i)
  case 0
  then show ?case using assms(2) by simp
next
  case (Suc i)
  then have i: "i < length xs" and IH: "total_footprint ts in_shared (take i ys) \<le> left" by simp_all
  from assms(1) i have len: "i < length ys"
    and step: "ys ! i =
         (if in_shared (snd (xs ! i)) \<and>
             left - total_footprint ts in_shared (take i ys) < group_footprint ts (xs ! i)
          then evict (xs ! i) else xs ! i)"
    by (simp_all add: greedy_spec_def)
  have ne: "\<not> in_shared (snd (evict (xs ! i)))" by (simp add: evict_def in_shared_def)
  have "(if in_shared (snd (ys ! i)) then group_footprint ts (ys ! i) else 0)
          \<le> left - total_footprint ts in_shared (take i ys)"
    using step ne IH by (auto split: if_splits)
  then show ?case
    using len by (simp add: take_Suc_conv_app_nth total_footprint_append total_footprint_Cons)
qed

lemma greedy_spec_fits:
  assumes "greedy_spec ts left xs ys l" and "0 \<le> left"
  shows "total_footprint ts in_shared ys \<le> left"
proof -
  from assms(1) have "length ys = length xs" by (simp add: greedy_spec_def)
  with greedy_spec_prefix_fits [OF assms, of "length xs"] show ?thesis by simp
qed

lemma check_groups_private:
  "check_groups ts esz left gs = (gs', left') \<Longrightarrow> list_all2 private_kept gs gs'"
proof (induction gs arbitrary: left gs' left')
  case Nil
  then show ?case by simp
next
  case (Cons g gs)
  then show ?case
    by (auto simp add: private_kept_def Let_def split: if_splits option.splits prod.splits)
qed

lemma check_arrays_private:
  "check_arrays ts left as = (as', left') \<Longrightarrow>
   list_all2 (\<lambda>a a'. list_all2 private_kept (groups a) (groups a')) as as'"
proof (induction as arbitrary: left as' left')
  case Nil
  then show ?case by simp
next
  case (Cons a as)
  then show ?case
    by (auto simp add: Let_def split: prod.splits dest: check_groups_private)
qed

lemma check_groups_filter:
  "check_groups ts esz left (filter (\<lambda>g. private_tile g = None) gs) =
     (filter (\<lambda>g. private_tile g = None) (fst (check_groups ts esz left gs)),
      snd (check_groups ts esz left gs))"
  by (induction gs arbitrary: left)
    (auto simp add: Let_def split: option.splits prod.splits)

lemma check_arrays_drop_private:
  "check_arrays ts left (drop_private as) =
     (drop_private (fst (check_arrays ts left as)), snd (check_arrays ts left as))"
  by (induction as arbitrary: left)
    (auto simp add: drop_private_def check_groups_filter Let_def split: prod.splits)


lemma check_budget_kernel:
  "array (check_shared_memory_bound (\<lambda>t. t) budget_kernel) =
        [\<lparr>array_size = 4, force_private = False,
          groups = [\<lparr>private_tile = None, shared_tile = Some 100, last_shared = 1\<rparr>,
                    \<lparr>private_tile = None, shared_tile = None, last_shared = 1\<rparr>,
                    \<lparr>private_tile = Some 2, shared_tile = Some 5000, last_shared = 1\<rparr>]\<rparr>,
         \<lparr>array_size = 8, force_private = False,
          groups = [\<lparr>private_tile = None, shared_tile = Some 50, last_shared = 0\<rparr>,
                    \<lparr>private_tile = None, shared_tile = None, last_shared = 0\<rparr>]\<rparr>]"
  by (simp add: check_shared_memory_bound_def budget_kernel_def footprint_def ulong_of_int_def)

subsection \<open>C5\<close>

text \<open>
  C5 as stated concludes that eviction never removes more groups than necessary.  The
  pass is greedy: in \<open>greedy_kernel\<close> it keeps the first group (7 bytes of a budget of
  10) and evicts the two groups of 5 bytes after it, while evicting the first group
  alone leaves 10 bytes in shared memory, which fits.
\<close>

theorem C5_more_evictions_than_necessary_counterexample:
  "0 \<le> max_shared_memory greedy_kernel \<and>
   map shared_tile (groups (array (check_shared_memory_bound id greedy_kernel) ! 0)) =
     [Some 7, None, None] \<and>
   evicted_count (flat_groups (array greedy_kernel))
     (flat_groups (array (check_shared_memory_bound id greedy_kernel))) = 2 \<and>
   evicted_count (flat_groups (array greedy_kernel)) (flat_groups greedy_alternative) = 1 \<and>
   total_footprint id in_shared (flat_groups greedy_alternative)
     \<le> max_shared_memory greedy_kernel"
  by (simp add: check_shared_memory_bound_def greedy_kernel_def greedy_alternative_def
      footprint_def ulong_of_int_def flat_groups_def evicted_count_def total_footprint_def
      in_shared_def group_footprint_def)

text \<open>
  C5 (amended): for every kernel and every budget \<open>max_shared_memory \<ge> 0\<close>, after
  \<open>check_shared_memory_bound\<close> the footprints (tile size times element size) of the
  groups still holding a shared tile in shared memory (a shared tile and no private
  tile) add up to at most the budget.  The groups are visited in encounter order, none
  is added or removed, and the group at position \<open>i\<close> loses its shared tile exactly
  when it is mapped to shared memory and its footprint exceeds the budget minus the
  footprints of the groups before it that are kept in shared memory; every other group
  is left as it is.  So no group is kept that does not fit, and no group is evicted
  that fits at its turn; the number of groups evicted need not be the least possible.
\<close>

theorem C5_shared_memory_budget_respected:
  fixes kern :: "'tile ppcg_kernel"
  assumes "0 \<le> max_shared_memory kern"
  shows "total_footprint tsize in_shared
           (flat_groups (array (check_shared_memory_bound tsize kern))) \<le> max_shared_memory kern \<and>
         length (flat_groups (array (check_shared_memory_bound tsize kern))) =
           length (flat_groups (array kern)) \<and>
         (\<forall>i<length (flat_groups (array kern)).
            flat_groups (array (check_shared_memory_bound tsize kern)) ! i =
              (if in_shared (snd (flat_groups (array kern) ! i)) \<and>
                  max_shared_memory kern -
                    total_footprint tsize in_shared
                      (take i (flat_groups (array (check_shared_memory_bound tsize kern))))
                    < group_footprint tsize (flat_groups (array kern) ! i)
               then evict (flat_groups (array kern) ! i)
               else flat_groups (array kern) ! i))"
proof -
  obtain as' l where c: "check_arrays tsize (max_shared_memory kern) (array kern) = (as', l)"
    by (cases "check_arrays tsize (max_shared_memory kern) (array kern)")
  from assms c have a: "array (check_shared_memory_bound tsize kern) = as'"
    by (simp add: check_shared_memory_bound_def)
  from check_arrays_spec [OF c] have g: "greedy_spec tsize (max_shared_memory kern)
     (flat_groups (array kern)) (flat_groups as') l" .
  from greedy_spec_fits [OF g assms] have "total_footprint tsize in_shared (flat_groups as')
     \<le> max_shared_memory kern" .
  with g show ?thesis unfolding a greedy_spec_def by blast
qed

theorem C5_shared_memory_budget_respected_witness:
  "0 \<le> max_shared_memory budget_kernel \<and>
   total_footprint (\<lambda>t. t) in_shared
     (flat_groups (array (check_shared_memory_bound (\<lambda>t. t) budget_kernel))) = 800 \<and>
   total_footprint (\<lambda>t. t) in_shared
     (flat_groups (array (check_shared_memory_bound (\<lambda>t. t) budget_kernel)))
     \<le> max_shared_memory budget_kernel \<and>
   flat_groups (array (check_shared_memory_bound (\<lambda>t. t) budget_kernel)) ! 1 =
     evict (flat_groups (array budget_kernel) ! 1)"
proof -
  have h: "0 \<le> max_shared_memory budget_kernel" by (simp add: budget_kernel_def)
  have v: "total_footprint (\<lambda>t. t) in_shared
     (flat_groups (array (check_shared_memory_bound (\<lambda>t. t) budget_kernel))) = 800"
    by (simp add: check_budget_kernel)
      (simp add: flat_groups_def total_footprint_def in_shared_def
        group_footprint_def footprint_def ulong_of_int_def)
  have e: "flat_groups (array (check_shared_memory_bound (\<lambda>t. t) budget_kernel)) ! 1 =
     evict (flat_groups (array budget_kernel) ! 1)"
    by (simp add: check_budget_kernel) (simp add: budget_kernel_def flat_groups_def evict_def)
  from C5_shared_memory_budget_respected [OF h, of "\<lambda>t. t"] h v e show ?thesis by blast
qed

subsection \<open>C10\<close>

text \<open>
  C10: the budget pass never touches a group that holds a private tile.  Every group
  keeps its private tile and a group with a private tile comes out as it went in, so it
  is never evicted; and such groups contribute nothing to the shared memory total:
  running the pass on the kernel without its private groups gives, for all the other
  groups, exactly the result of running it on the whole kernel.
\<close>

theorem C10_private_groups_untouched:
  fixes kern :: "'tile ppcg_kernel"
  shows "list_all2 (\<lambda>a a'. list_all2 private_kept (groups a) (groups a'))
           (array kern) (array (check_shared_memory_bound tsize kern)) \<and>
         array (check_shared_memory_bound tsize (kern\<lparr>array := drop_private (array kern)\<rparr>)) =
           drop_private (array (check_shared_memory_bound tsize kern))"
proof (cases "max_shared_memory kern < 0")
  case True
  have "list_all2 private_kept gs gs" for gs :: "'tile gpu_array_ref_group list"
    by (simp add: list_all2_same private_kept_def)
  then have "list_all2 (\<lambda>a a'. list_all2 private_kept (groups a) (groups a')) as as"
    for as :: "'tile gpu_local_array_info list"
    by (simp add: list_all2_same)
  with True show ?thesis by (simp add: check_shared_memory_bound_def)
next
  case False
  obtain as' l where c: "check_arrays tsize (max_shared_memory kern) (array kern) = (as', l)"
    by (cases "check_arrays tsize (max_shared_memory kern) (array kern)")
  from check_arrays_private [OF c] False c show ?thesis
    by (simp add: check_shared_memory_bound_def check_arrays_drop_private)
qed

theorem C10_private_groups_untouched_witness:
  "private_tile (groups (array budget_kernel ! 0) ! 2) \<noteq> None \<and>
   private_kept (groups (array budget_kernel ! 0) ! 2)
     (groups (array (check_shared_memory_bound (\<lambda>t. t) budget_kernel) ! 0) ! 2) \<and>
   groups (array (check_shared_memory_bound (\<lambda>t. t) budget_kernel) ! 0) ! 2 =
     groups (array budget_kernel ! 0) ! 2"
proof -
  have p: "private_tile (groups (array budget_kernel ! 0) ! 2) \<noteq> None"
    by (simp add: budget_kernel_def)
  have l: "0 < length (array budget_kernel)" "2 < length (groups (array budget_kernel ! 0))"
    by (simp_all add: budget_kernel_def)
  from C10_private_groups_untouched [of budget_kernel "\<lambda>t. t"]
  have "list_all2 (\<lambda>a a'. list_all2 private_kept (groups a) (groups a'))
           (array budget_kernel) (array (check_shared_memory_bound (\<lambda>t. t) budget_kernel))"
    by blast
  then have "list_all2 private_kept (groups (array budget_kernel ! 0))
           (groups (array (check_shared_memory_bound (\<lambda>t. t) budget_kernel) ! 0))"
    using l(1) by (rule list_all2_nthD)
  then have k: "private_kept (groups (array budget_kernel ! 0) ! 2)
     (groups (array (check_shared_memory_bound (\<lambda>t. t) budget_kernel) ! 0) ! 2)"
    using l(2) by (rule list_all2_nthD)
  with p show ?thesis by (simp add: private_kept_def)
qed

section \<open>Properties of the memory hierarchy schedule\<close>

lemma group_number_Suc:
  assumes "i < length as" "j < length (groups (as ! i))"
  shows "group_number as (i, Suc j) =
         group_number as (i, j) + (if tiled (groups (as ! i) ! j) then 1 else 0)"
  using assms by (simp add: group_number_def take_Suc_conv_app_nth)

lemma group_number_next_array:
  assumes "i < length as"
  shows "group_number as (Suc i, 0) = group_number as (i, length (groups (as ! i)))"
  using assms by (simp add: group_number_def take_Suc_conv_app_nth)

lemma length_concat_groups:
  "int (length (concat (map groups as))) = n_groups as"
  by (induction as) (simp_all add: n_groups_def)

lemma group_number_bounds:
  assumes "valid_group as grp"
  shows "0 \<le> group_number as grp \<and> group_number as grp < n_groups as"
proof -
  obtain i j where grp: "grp = (i, j)" by (cases grp)
  from assms grp have i: "i < length as" and j: "j < length (groups (as ! i))"
    by (simp_all add: valid_group_def)
  have "as = take i as @ as ! i # drop (Suc i) as"
    using i by (simp add: id_take_nth_drop [symmetric])
  then have "concat (map groups as) =
     concat (map groups (take i as)) @ groups (as ! i) @ concat (map groups (drop (Suc i) as))"
    by (metis concat.simps(2) concat_append list.simps(9) map_append)
  then have "length (concat (map groups as)) \<ge>
     length (concat (map groups (take i as))) + length (groups (as ! i))"
    by simp
  moreover have "length (filter tiled (concat (map groups (take i as)) @ take j (groups (as ! i))))
     \<le> length (concat (map groups (take i as))) + j"
    by (metis length_filter_le length_append length_take min.absorb2 less_imp_le j)
  ultimately have "length (filter tiled (concat (map groups (take i as)) @ take j (groups (as ! i))))
     < length (concat (map groups as))"
    using j by linarith
  then show ?thesis
    using length_concat_groups [of as] grp by (simp add: group_number_def)
qed

lemma add_group_schedule_ok:
  assumes "add_group_schedule gen ce res g grp rd k s = Some res'"
    and "\<forall>e\<in>set res. entry_ok gen s e"
    and "valid_group (array (gen_kernel gen)) grp"
    and "group_at (array (gen_kernel gen)) grp = g"
    and "tiled g"
    and "k = group_number (array (gen_kernel gen)) grp"
  shows "\<forall>e\<in>set res'. entry_ok gen s e"
proof -
  let ?c = "\<lparr>entry_id = Copy_stmt rd grp,
              entry_pos = last_shared g + 1 - tile_first gen,
              entry_val = (if rd then - 2 - k
                     else if private_tile g \<noteq> None then 1 + k
                     else 1 + s + 1 + k)\<rparr>"
  have c: "entry_ok gen s ?c"
    using assms(3-6) by (simp add: entry_ok_def)
  have sy: "entry_ok gen s \<lparr>entry_id = Sync_stmt, entry_pos = p, entry_val = - 1\<rparr>"
    "entry_ok gen s \<lparr>entry_id = Sync_stmt, entry_pos = p, entry_val = 2 * s + 2\<rparr>" for p
    by (simp_all add: entry_ok_def)
  from assms(1) have "set res' \<subseteq> set res \<union> {?c,
      \<lparr>entry_id = Sync_stmt, entry_pos = shared_len gen - tile_first gen, entry_val = - 1\<rparr>,
      \<lparr>entry_id = Sync_stmt, entry_pos = last_shared g + 1 - tile_first gen, entry_val = 2 * s + 2\<rparr>}"
    by (auto simp add: add_group_schedule_def add_sync_schedule_def Let_def split: if_splits)
  with assms(2) c sy show ?thesis by blast
qed

lemma body_groups_ok:
  assumes "body_groups gen ce s i j gs (res, k) = Some (res', k')"
    and "i < length (array (gen_kernel gen))"
    and "groups (array (gen_kernel gen) ! i) = pre @ gs"
    and "length pre = j"
    and "k = group_number (array (gen_kernel gen)) (i, j)"
    and "\<forall>e\<in>set res. entry_ok gen s e"
  shows "(\<forall>e\<in>set res'. entry_ok gen s e) \<and>
         k' = group_number (array (gen_kernel gen)) (i, length (groups (array (gen_kernel gen) ! i)))"
  using assms
proof (induction gs arbitrary: pre j res k)
  case Nil
  then show ?case by simp
next
  case (Cons g gs)
  let ?as = "array (gen_kernel gen)"
  have j: "j < length (groups (?as ! i))" and gj: "groups (?as ! i) ! j = g"
    using Cons.prems(3,4) by (simp_all add: nth_append)
  have pre': "groups (?as ! i) = (pre @ [g]) @ gs" "length (pre @ [g]) = Suc j"
    using Cons.prems(3,4) by simp_all
  have num: "group_number ?as (i, Suc j) = k + (if tiled g then 1 else 0)"
    using group_number_Suc [OF Cons.prems(2) j] gj Cons.prems(5) by simp
  show ?case
  proof (cases "private_tile g = None \<and> shared_tile g = None")
    case True
    then have nt: "\<not> tiled g" by (simp add: tiled_def)
    from True Cons.prems(1) have b: "body_groups gen ce s i (Suc j) gs (res, k) = Some (res', k')"
      by simp
    show ?thesis
      by (rule Cons.IH [OF b Cons.prems(2) pre']) (use num nt Cons.prems(6) in simp_all)
  next
    case False
    then have t: "tiled g" by (auto simp add: tiled_def)
    from False Cons.prems(1) obtain res1 res2 where
      w: "add_group_schedule gen ce res g (i, j) False k s = Some res1" and
      r: "add_group_schedule gen ce res1 g (i, j) True k s = Some res2" and
      b: "body_groups gen ce s i (Suc j) gs (res2, k + 1) = Some (res', k')"
      by (auto split: option.splits)
    have v: "valid_group ?as (i, j)" "group_at ?as (i, j) = g"
      using Cons.prems(2) j gj by (simp_all add: valid_group_def group_at_def)
    have ok1: "\<forall>e\<in>set res1. entry_ok gen s e"
      by (rule add_group_schedule_ok [OF w Cons.prems(6) v t Cons.prems(5)])
    have ok2: "\<forall>e\<in>set res2. entry_ok gen s e"
      by (rule add_group_schedule_ok [OF r ok1 v t Cons.prems(5)])
    show ?thesis
      by (rule Cons.IH [OF b Cons.prems(2) pre']) (use num t ok2 in simp_all)
  qed
qed

lemma body_arrays_ok:
  assumes "body_arrays gen ce s i rest (res, k) = Some (res', k')"
    and "array (gen_kernel gen) = pre @ rest"
    and "length pre = i"
    and "k = group_number (array (gen_kernel gen)) (i, 0)"
    and "\<forall>e\<in>set res. entry_ok gen s e"
  shows "\<forall>e\<in>set res'. entry_ok gen s e"
  using assms
proof (induction rest arbitrary: pre i res k)
  case Nil
  then show ?case by simp
next
  case (Cons a rest)
  let ?as = "array (gen_kernel gen)"
  have i: "i < length ?as" and ai: "?as ! i = a"
    using Cons.prems(2,3) by (simp_all add: nth_append)
  from Cons.prems(1) obtain res1 k1 where
    g: "body_groups gen ce s i 0 (groups a) (res, k) = Some (res1, k1)" and
    b: "body_arrays gen ce s (Suc i) rest (res1, k1) = Some (res', k')"
    by (auto split: option.splits)
  have "(\<forall>e\<in>set res1. entry_ok gen s e) \<and>
         k1 = group_number ?as (i, length (groups (?as ! i)))"
    by (rule body_groups_ok [OF g i, of "[]"]) (use ai Cons.prems(4,5) in simp_all)
  then have ok1: "\<forall>e\<in>set res1. entry_ok gen s e"
    and k1: "k1 = group_number ?as (Suc i, 0)"
    using group_number_next_array [OF i] by simp_all
  show ?case
    by (rule Cons.IH [OF b, of "pre @ [a]"]) (use Cons.prems(2,3) k1 ok1 in simp_all)
qed

lemma body_schedule_ok:
  assumes "body_schedule gen ce = Some res"
  shows "\<forall>e\<in>set res. entry_ok gen (n_groups (array (gen_kernel gen))) e"
proof -
  let ?s = "n_groups (array (gen_kernel gen))"
  let ?d = "\<lparr>entry_id = Domain_stmt, entry_pos = - 1, entry_val = 0\<rparr>"
  from assms obtain res' k where
    b: "body_arrays gen ce ?s 0 (array (gen_kernel gen)) ([?d], 0) = Some (res', k)" and
    r: "res = add_sync_schedule res' (shared_len gen - tile_first gen) (1 + ?s)"
    by (auto simp add: body_schedule_def Let_def split: option.splits)
  have "\<forall>e\<in>set res'. entry_ok gen ?s e"
    by (rule body_arrays_ok [OF b, of "[]"]) (simp_all add: group_number_def entry_ok_def)
  then show ?thesis
    using r by (simp add: add_sync_schedule_def entry_ok_def)
qed

lemma add_group_schedule_mono:
  "add_group_schedule gen ce res g grp rd k s = Some res' \<Longrightarrow> set res \<subseteq> set res'"
  by (auto simp add: add_group_schedule_def add_sync_schedule_def Let_def split: if_splits)

lemma add_group_schedule_write_sync:
  assumes "add_group_schedule gen ce res g grp False k s = Some res'"
    and "group_at (array (gen_kernel gen)) grp = g"
    and "needs_write_sync gen ce grp"
  shows "write_sync gen s grp \<in> set res'"
  using assms
  by (auto simp add: add_group_schedule_def add_sync_schedule_def needs_write_sync_def
      write_sync_def Let_def split: if_splits)

lemma body_groups_sync:
  assumes "body_groups gen ce s i j gs (res, k) = Some (res', k')"
    and "groups (array (gen_kernel gen) ! i) = pre @ gs"
    and "length pre = j"
  shows "set res \<subseteq> set res' \<and>
         (\<forall>j'. j \<le> j' \<and> needs_write_sync gen ce (i, j') \<longrightarrow> write_sync gen s (i, j') \<in> set res')"
  using assms
proof (induction gs arbitrary: pre j res k)
  case Nil
  then have "\<not> needs_write_sync gen ce (i, j')" if "j \<le> j'" for j'
    using that by (simp add: needs_write_sync_def valid_group_def)
  with Nil show ?case by auto
next
  case (Cons g gs)
  let ?as = "array (gen_kernel gen)"
  have gj: "group_at ?as (i, j) = g"
    using Cons.prems(2,3) by (simp add: group_at_def nth_append)
  have pre': "groups (?as ! i) = (pre @ [g]) @ gs" "length (pre @ [g]) = Suc j"
    using Cons.prems(2,3) by simp_all
  show ?case
  proof (cases "private_tile g = None \<and> shared_tile g = None")
    case True
    then have nt: "\<not> needs_write_sync gen ce (i, j)"
      using gj by (simp add: needs_write_sync_def tiled_def)
    from True Cons.prems(1) have b: "body_groups gen ce s i (Suc j) gs (res, k) = Some (res', k')"
      by simp
    from Cons.IH [OF b pre'] nt show ?thesis
      by (metis Suc_leI le_neq_implies_less)
  next
    case False
    from False Cons.prems(1) obtain res1 res2 where
      w: "add_group_schedule gen ce res g (i, j) False k s = Some res1" and
      r: "add_group_schedule gen ce res1 g (i, j) True k s = Some res2" and
      b: "body_groups gen ce s i (Suc j) gs (res2, k + 1) = Some (res', k')"
      by (auto split: option.splits)
    note m1 = add_group_schedule_mono [OF w] and m2 = add_group_schedule_mono [OF r]
    from Cons.IH [OF b pre'] have m3: "set res2 \<subseteq> set res'"
      and later: "\<And>j'. Suc j \<le> j' \<Longrightarrow> needs_write_sync gen ce (i, j') \<Longrightarrow>
                     write_sync gen s (i, j') \<in> set res'"
      by simp_all
    have here: "write_sync gen s (i, j) \<in> set res'" if "needs_write_sync gen ce (i, j)"
      using add_group_schedule_write_sync [OF w gj that] m2 m3 by blast
    have "write_sync gen s (i, j') \<in> set res'" if "j \<le> j'" "needs_write_sync gen ce (i, j')" for j'
      using that here later by (cases "j' = j") simp_all
    with m1 m2 m3 show ?thesis by blast
  qed
qed

lemma body_arrays_sync:
  assumes "body_arrays gen ce s i rest (res, k) = Some (res', k')"
    and "array (gen_kernel gen) = pre @ rest"
    and "length pre = i"
  shows "set res \<subseteq> set res' \<and>
         (\<forall>i' j'. i \<le> i' \<and> needs_write_sync gen ce (i', j') \<longrightarrow> write_sync gen s (i', j') \<in> set res')"
  using assms
proof (induction rest arbitrary: pre i res k)
  case Nil
  then have "\<not> needs_write_sync gen ce (i', j')" if "i \<le> i'" for i' j'
    using that by (simp add: needs_write_sync_def valid_group_def)
  with Nil show ?case by auto
next
  case (Cons a rest)
  let ?as = "array (gen_kernel gen)"
  have ai: "?as ! i = a"
    using Cons.prems(2,3) by (simp add: nth_append)
  from Cons.prems(1) obtain res1 k1 where
    g: "body_groups gen ce s i 0 (groups a) (res, k) = Some (res1, k1)" and
    b: "body_arrays gen ce s (Suc i) rest (res1, k1) = Some (res', k')"
    by (auto split: option.splits)
  have "set res \<subseteq> set res1 \<and>
         (\<forall>j'. 0 \<le> j' \<and> needs_write_sync gen ce (i, j') \<longrightarrow> write_sync gen s (i, j') \<in> set res1)"
    by (rule body_groups_sync [OF g, of "[]"]) (simp_all add: ai)
  then have m1: "set res \<subseteq> set res1"
    and here: "\<And>j'. needs_write_sync gen ce (i, j') \<Longrightarrow> write_sync gen s (i, j') \<in> set res1"
    by simp_all
  have "set res1 \<subseteq> set res' \<and>
         (\<forall>i' j'. Suc i \<le> i' \<and> needs_write_sync gen ce (i', j') \<longrightarrow> write_sync gen s (i', j') \<in> set res')"
    by (rule Cons.IH [OF b, of "pre @ [a]"]) (use Cons.prems(2,3) in simp_all)
  then have m2: "set res1 \<subseteq> set res'"
    and later: "\<And>i' j'. Suc i \<le> i' \<Longrightarrow> needs_write_sync gen ce (i', j') \<Longrightarrow>
                     write_sync gen s (i', j') \<in> set res'"
    by simp_all
  have "write_sync gen s (i', j') \<in> set res'" if "i \<le> i'" "needs_write_sync gen ce (i', j')" for i' j'
    using that here later m2 by (cases "i' = i") auto
  with m1 m2 show ?case by blast
qed

lemma body_schedule_sync:
  assumes "body_schedule gen ce = Some res" and "needs_write_sync gen ce grp"
  shows "write_sync gen (n_groups (array (gen_kernel gen))) grp \<in> set res"
proof -
  let ?s = "n_groups (array (gen_kernel gen))"
  let ?d = "\<lparr>entry_id = Domain_stmt, entry_pos = - 1, entry_val = 0\<rparr>"
  from assms obtain res' k where
    b: "body_arrays gen ce ?s 0 (array (gen_kernel gen)) ([?d], 0) = Some (res', k)" and
    r: "res = add_sync_schedule res' (shared_len gen - tile_first gen) (1 + ?s)"
    by (auto simp add: body_schedule_def Let_def split: option.splits)
  from body_arrays_sync [OF b, of "[]"] assms(2)
  have "write_sync gen ?s grp \<in> set res'" by (cases grp) simp
  then show ?thesis using r by (simp add: add_sync_schedule_def)
qed

lemma body_schedule_last:
  assumes "body_schedule gen ce = Some res"
  shows "last res = \<lparr>entry_id = Sync_stmt, entry_pos = shared_len gen - tile_first gen,
                      entry_val = 1 + n_groups (array (gen_kernel gen))\<rparr>"
  using assms
  by (auto simp add: body_schedule_def add_sync_schedule_def Let_def split: option.splits)

lemma insert_even_rank:
  assumes "0 \<le> pos" "pos \<le> shared_len gen - tile_first gen"
  shows "insert_even gen pos val sv ! nat (2 * pos) = val"
proof -
  have "nat (2 * pos) < 2 * nat (shared_len gen - tile_first gen) + 1"
    using assms by linarith
  moreover have "even (nat (2 * pos))" "int (nat (2 * pos) div 2) = pos"
    using assms(1) by (simp_all add: even_nat_iff)
  ultimately show ?thesis
    by (simp add: insert_even_def Let_def del: upt_Suc)
qed

text \<open>
  \<open>body_schedule\<close> returns a schedule unless \<open>assert(pos >= 0)\<close> fails: it does
  whenever no group has its last shared dimension more than one level before
  \<open>tile_first\<close>.
\<close>

lemma add_group_schedule_returns:
  assumes "tile_first gen \<le> last_shared g + 1"
  shows "\<exists>res'. add_group_schedule gen ce res g grp rd k s = Some res'"
  using assms by (simp add: add_group_schedule_def Let_def)

lemma body_groups_returns:
  assumes "\<forall>g\<in>set gs. tile_first gen \<le> last_shared g + 1"
  shows "\<exists>st'. body_groups gen ce s i j gs st = Some st'"
  using assms
proof (induction gs arbitrary: j st)
  case Nil
  then show ?case by (cases st) simp
next
  case (Cons g gs)
  obtain res k where st: "st = (res, k)" by (cases st)
  from Cons.prems have g: "tile_first gen \<le> last_shared g + 1"
    and rest: "\<forall>g\<in>set gs. tile_first gen \<le> last_shared g + 1"
    by simp_all
  from add_group_schedule_returns [OF g] obtain res1 where
    w: "add_group_schedule gen ce res g (i, j) False k s = Some res1" by blast
  from add_group_schedule_returns [OF g] obtain res2 where
    r: "add_group_schedule gen ce res1 g (i, j) True k s = Some res2" by blast
  from Cons.IH [OF rest] show ?case
    unfolding st by (simp add: w r)
qed

lemma body_arrays_returns:
  assumes "\<forall>a\<in>set as. \<forall>g\<in>set (groups a). tile_first gen \<le> last_shared g + 1"
  shows "\<exists>st'. body_arrays gen ce s i as st = Some st'"
  using assms
proof (induction as arbitrary: i st)
  case Nil
  then show ?case by simp
next
  case (Cons a as)
  from Cons.prems have "\<forall>g\<in>set (groups a). tile_first gen \<le> last_shared g + 1"
    and rest: "\<forall>a\<in>set as. \<forall>g\<in>set (groups a). tile_first gen \<le> last_shared g + 1"
    by simp_all
  from body_groups_returns [OF this(1)] obtain st1 where
    "body_groups gen ce s i 0 (groups a) st = Some st1" by blast
  with Cons.IH [OF rest] show ?case by simp
qed

lemma body_schedule_returns:
  assumes "\<forall>a\<in>set (array (gen_kernel gen)). \<forall>g\<in>set (groups a).
             tile_first gen \<le> last_shared g + 1"
  shows "\<exists>res. body_schedule gen ce = Some res"
proof -
  from body_arrays_returns [OF assms] obtain st where
    "body_arrays gen ce (n_groups (array (gen_kernel gen))) 0 (array (gen_kernel gen))
       ([\<lparr>entry_id = Domain_stmt, entry_pos = - 1, entry_val = 0\<rparr>], 0) = Some st"
    by blast
  then show ?thesis
    by (cases st) (simp add: body_schedule_def Let_def)
qed

lemma n_tiled_le_n_groups: "n_tiled as \<le> n_groups as"
proof -
  have "length (filter tiled (concat (map groups as))) \<le> length (concat (map groups as))"
    by (rule length_filter_le)
  then have "int (length (filter tiled (concat (map groups as))))
      \<le> int (length (concat (map groups as)))"
    by simp
  then show ?thesis unfolding n_tiled_def length_concat_groups .
qed

lemma group_number_lt_n_tiled:
  assumes "valid_group as grp" "tiled (group_at as grp)"
  shows "group_number as grp < n_tiled as"
proof -
  obtain i j where grp: "grp = (i, j)" by (cases grp)
  from assms grp have i: "i < length as" and j: "j < length (groups (as ! i))"
    and t: "tiled (groups (as ! i) ! j)"
    by (simp_all add: valid_group_def group_at_def)
  let ?P = "concat (map groups (take i as)) @ take j (groups (as ! i))"
  let ?R = "drop (Suc j) (groups (as ! i)) @ concat (map groups (drop (Suc i) as))"
  have a: "as = take i as @ as ! i # drop (Suc i) as"
    using i by (simp add: id_take_nth_drop [symmetric])
  have g: "groups (as ! i) = take j (groups (as ! i)) @ groups (as ! i) ! j # drop (Suc j) (groups (as ! i))"
    using j by (simp add: id_take_nth_drop [symmetric])
  have "concat (map groups as) =
     concat (map groups (take i as)) @ groups (as ! i) @ concat (map groups (drop (Suc i) as))"
    by (subst a) simp
  also have "\<dots> = ?P @ groups (as ! i) ! j # ?R"
    by (subst g) simp
  finally have "filter tiled (concat (map groups as)) =
      filter tiled ?P @ groups (as ! i) ! j # filter tiled ?R"
    using t by simp
  then have "length (filter tiled ?P) < length (filter tiled (concat (map groups as)))"
    by simp
  then show ?thesis by (simp add: group_number_def n_tiled_def grp)
qed

lemma entry_ok_tiled:
  assumes "entry_ok gen s e" "entry_id e = Copy_stmt rd grp"
  shows "tiled (group_at (array (gen_kernel gen)) grp)"
  using assms by (simp add: entry_ok_def Let_def)

lemma body_schedule_untiled_gen:
  "body_schedule untiled_gen all_copied =
     Some [\<lparr>entry_id = Domain_stmt, entry_pos = - 1, entry_val = 0\<rparr>,
           \<lparr>entry_id = Copy_stmt False (0, 1), entry_pos = 1, entry_val = 4\<rparr>,
           \<lparr>entry_id = Sync_stmt, entry_pos = 1, entry_val = 6\<rparr>,
           \<lparr>entry_id = Copy_stmt True (0, 1), entry_pos = 1, entry_val = - 2\<rparr>,
           \<lparr>entry_id = Sync_stmt, entry_pos = 2, entry_val = - 1\<rparr>,
           \<lparr>entry_id = Sync_stmt, entry_pos = 2, entry_val = 3\<rparr>]"
  by (simp add: body_schedule_def untiled_gen_def n_groups_def all_copied_def
      add_group_schedule_def add_sync_schedule_def)

lemma body_schedule_rank_gen: "body_schedule rank_gen all_copied = Some rank_entries"
  by (simp add: body_schedule_def rank_gen_def budget_kernel_def n_groups_def all_copied_def
      add_group_schedule_def add_sync_schedule_def rank_entries_def)

lemma entry_ok_copy:
  assumes "entry_ok gen s e" "entry_id e = Copy_stmt rd grp"
  shows "valid_group (array (gen_kernel gen)) grp \<and>
         entry_val e =
            (if rd then - 2 - group_number (array (gen_kernel gen)) grp
             else if private_tile (group_at (array (gen_kernel gen)) grp) \<noteq> None
                  then 1 + group_number (array (gen_kernel gen)) grp
             else s + 2 + group_number (array (gen_kernel gen)) grp)"
  using assms by (simp add: entry_ok_def Let_def)

subsection \<open>C1\<close>

text \<open>
  C1 as stated takes \<open>s\<close> to be the number of groups that the schedule covers, numbered
  \<open>0..s-1\<close>.  \<open>body_schedule\<close> counts every group of the kernel in \<open>s\<close>, with or
  without a tile, and numbers only the groups that hold a tile.  In \<open>untiled_gen\<close> a
  group without a tile comes before a group with a shared tile: the schedule covers one
  group, with number 0, its write has rank 4 and the synchronization after it rank 6,
  where C1 gives \<open>s+2+k = 3\<close>, the range \<open>3..3\<close> and \<open>2s+2 = 4\<close>; counting
  and numbering all groups instead gives \<open>s+2+k = 5\<close>.
\<close>

theorem C1_untiled_group_counterexample:
  "body_schedule untiled_gen all_copied =
     Some [\<lparr>entry_id = Domain_stmt, entry_pos = - 1, entry_val = 0\<rparr>,
           \<lparr>entry_id = Copy_stmt False (0, 1), entry_pos = 1, entry_val = 4\<rparr>,
           \<lparr>entry_id = Sync_stmt, entry_pos = 1, entry_val = 6\<rparr>,
           \<lparr>entry_id = Copy_stmt True (0, 1), entry_pos = 1, entry_val = - 2\<rparr>,
           \<lparr>entry_id = Sync_stmt, entry_pos = 2, entry_val = - 1\<rparr>,
           \<lparr>entry_id = Sync_stmt, entry_pos = 2, entry_val = 3\<rparr>] \<and>
   shared_write_entry (array (gen_kernel untiled_gen))
     \<lparr>entry_id = Copy_stmt False (0, 1), entry_pos = 1, entry_val = 4\<rparr> \<and>
   n_tiled (array (gen_kernel untiled_gen)) = 1 \<and>
   group_number (array (gen_kernel untiled_gen)) (0, 1) = 0 \<and>
   n_groups (array (gen_kernel untiled_gen)) = 2 \<and>
   group_index (array (gen_kernel untiled_gen)) (0, 1) = 1 \<and>
   entry_val \<lparr>entry_id = Copy_stmt False (0, 1), entry_pos = 1, entry_val = 4\<rparr>
     \<noteq> n_tiled (array (gen_kernel untiled_gen)) + 2 +
        group_number (array (gen_kernel untiled_gen)) (0, 1) \<and>
   \<not> entry_val \<lparr>entry_id = Copy_stmt False (0, 1), entry_pos = 1, entry_val = 4\<rparr>
       \<le> 2 * n_tiled (array (gen_kernel untiled_gen)) + 1 \<and>
   entry_val \<lparr>entry_id = Sync_stmt, entry_pos = 1, entry_val = 6\<rparr>
     \<noteq> 2 * n_tiled (array (gen_kernel untiled_gen)) + 2 \<and>
   entry_val \<lparr>entry_id = Copy_stmt False (0, 1), entry_pos = 1, entry_val = 4\<rparr>
     \<noteq> n_groups (array (gen_kernel untiled_gen)) + 2 +
        group_index (array (gen_kernel untiled_gen)) (0, 1)"
  by (simp add: body_schedule_untiled_gen)
    (simp add: untiled_gen_def shared_write_entry_def group_at_def n_tiled_def tiled_def
      group_number_def n_groups_def group_index_def)

text \<open>
  C1 (amended): for a kernel with \<open>s\<close> array reference groups in all, with or without a
  tile, the schedule built by \<open>body_schedule\<close> covers the \<open>t \<le> s\<close> groups that hold a
  private or a shared tile, numbered \<open>k = 0..t-1\<close> in encounter order.  Every copy
  piece belongs to such a group and carries the rank \<open>-2-k\<close>, which is negative, when
  it is a read; the rank \<open>1+k\<close>, which lies in \<open>1..s\<close>, when it is the write of a
  group with a private tile; the rank \<open>s+2+k\<close>, which lies in \<open>s+2..2s+1\<close>, when it
  is the write of a group with only a shared tile.  The rank is the even coordinate
  \<open>2 * pos\<close> of the piece.  Every group for which a synchronization is scheduled after
  the copy-out has that synchronization in the schedule, with rank \<open>2s+2\<close>.
\<close>

theorem C1_rank_values:
  assumes "body_schedule gen copy_empty = Some res"
  shows "(\<forall>e\<in>set res. \<forall>rd grp. entry_id e = Copy_stmt rd grp \<longrightarrow>
            valid_group (array (gen_kernel gen)) grp \<and>
            0 \<le> group_number (array (gen_kernel gen)) grp \<and>
            group_number (array (gen_kernel gen)) grp < n_groups (array (gen_kernel gen)) \<and>
            tiled (group_at (array (gen_kernel gen)) grp) \<and>
            group_number (array (gen_kernel gen)) grp < n_tiled (array (gen_kernel gen)) \<and>
            n_tiled (array (gen_kernel gen)) \<le> n_groups (array (gen_kernel gen)) \<and>
            (rd \<longrightarrow> entry_val e = - 2 - group_number (array (gen_kernel gen)) grp \<and> entry_val e < 0) \<and>
            (\<not> rd \<and> private_tile (group_at (array (gen_kernel gen)) grp) \<noteq> None \<longrightarrow>
               entry_val e = 1 + group_number (array (gen_kernel gen)) grp \<and>
               1 \<le> entry_val e \<and> entry_val e \<le> n_groups (array (gen_kernel gen))) \<and>
            (\<not> rd \<and> private_tile (group_at (array (gen_kernel gen)) grp) = None \<longrightarrow>
               entry_val e =
                 n_groups (array (gen_kernel gen)) + 2 + group_number (array (gen_kernel gen)) grp \<and>
               n_groups (array (gen_kernel gen)) + 2 \<le> entry_val e \<and>
               entry_val e \<le> 2 * n_groups (array (gen_kernel gen)) + 1) \<and>
            (0 \<le> entry_pos e \<and> entry_pos e \<le> shared_len gen - tile_first gen \<longrightarrow>
               entry_schedule gen e sv ! nat (2 * entry_pos e) = entry_val e)) \<and>
         (\<forall>grp. needs_write_sync gen copy_empty grp \<longrightarrow>
            write_sync gen (n_groups (array (gen_kernel gen))) grp \<in> set res \<and>
            entry_val (write_sync gen (n_groups (array (gen_kernel gen))) grp) =
              2 * n_groups (array (gen_kernel gen)) + 2)"
proof (intro conjI ballI allI impI)
  fix e rd grp
  assume e: "e \<in> set res" and c: "entry_id e = Copy_stmt rd grp"
  let ?as = "array (gen_kernel gen)"
  from body_schedule_ok [OF assms] e have ok: "entry_ok gen (n_groups ?as) e" by blast
  from entry_ok_tiled [OF ok c] have td: "tiled (group_at ?as grp)" .
  from entry_ok_copy [OF ok c] have v: "valid_group ?as grp"
    and val: "entry_val e =
            (if rd then - 2 - group_number ?as grp
             else if private_tile (group_at ?as grp) \<noteq> None then 1 + group_number ?as grp
             else n_groups ?as + 2 + group_number ?as grp)"
    by simp_all
  note b = group_number_bounds [OF v]
  show "valid_group ?as grp" by (rule v)
  show "0 \<le> group_number ?as grp" using b by simp
  show "group_number ?as grp < n_groups ?as" using b by simp
  show "tiled (group_at ?as grp)" by (rule td)
  show "group_number ?as grp < n_tiled ?as" by (rule group_number_lt_n_tiled [OF v td])
  show "n_tiled ?as \<le> n_groups ?as" by (rule n_tiled_le_n_groups)
  show "entry_val e = - 2 - group_number ?as grp" if rd using that val by simp
  show "entry_val e < 0" if rd using that val b by simp
  show "entry_val e = 1 + group_number ?as grp"
    if "\<not> rd \<and> private_tile (group_at ?as grp) \<noteq> None" using that val by simp
  show "1 \<le> entry_val e"
    if "\<not> rd \<and> private_tile (group_at ?as grp) \<noteq> None" using that val b by simp
  show "entry_val e \<le> n_groups ?as"
    if "\<not> rd \<and> private_tile (group_at ?as grp) \<noteq> None" using that val b by simp
  show "entry_val e = n_groups ?as + 2 + group_number ?as grp"
    if "\<not> rd \<and> private_tile (group_at ?as grp) = None" using that val by simp
  show "n_groups ?as + 2 \<le> entry_val e"
    if "\<not> rd \<and> private_tile (group_at ?as grp) = None" using that val b by simp
  show "entry_val e \<le> 2 * n_groups ?as + 1"
    if "\<not> rd \<and> private_tile (group_at ?as grp) = None" using that val b by simp
  show "entry_schedule gen e sv ! nat (2 * entry_pos e) = entry_val e"
    if "0 \<le> entry_pos e \<and> entry_pos e \<le> shared_len gen - tile_first gen"
    using that by (simp add: entry_schedule_def insert_even_rank)
next
  fix grp
  assume n: "needs_write_sync gen copy_empty grp"
  show "write_sync gen (n_groups (array (gen_kernel gen))) grp \<in> set res"
    by (rule body_schedule_sync [OF assms n])
  show "entry_val (write_sync gen (n_groups (array (gen_kernel gen))) grp) =
              2 * n_groups (array (gen_kernel gen)) + 2"
    by (simp add: write_sync_def)
qed

theorem C1_rank_values_witness:
  "body_schedule rank_gen all_copied = Some rank_entries \<and>
   rank_entries ! 9 \<in> set rank_entries \<and>
   entry_id (rank_entries ! 9) = Copy_stmt False (0, 2) \<and>
   private_tile (group_at (array (gen_kernel rank_gen)) (0, 2)) \<noteq> None \<and>
   entry_val (rank_entries ! 9) = 1 + group_number (array (gen_kernel rank_gen)) (0, 2) \<and>
   1 \<le> entry_val (rank_entries ! 9) \<and>
   entry_val (rank_entries ! 9) \<le> n_groups (array (gen_kernel rank_gen)) \<and>
   needs_write_sync rank_gen all_copied (0, 1) \<and>
   write_sync rank_gen (n_groups (array (gen_kernel rank_gen))) (0, 1) \<in> set rank_entries"
proof -
  have m: "rank_entries ! 9 \<in> set rank_entries" by (simp add: rank_entries_def)
  have c: "entry_id (rank_entries ! 9) = Copy_stmt False (0, 2)" by (simp add: rank_entries_def)
  have p: "private_tile (group_at (array (gen_kernel rank_gen)) (0, 2)) \<noteq> None"
    by (simp add: rank_gen_def budget_kernel_def group_at_def)
  have n: "needs_write_sync rank_gen all_copied (0, 1)"
    by (simp add: needs_write_sync_def rank_gen_def budget_kernel_def group_at_def
        valid_group_def tiled_def all_copied_def)
  from C1_rank_values [OF body_schedule_rank_gen] m c p n body_schedule_rank_gen
  show ?thesis by blast
qed

subsection \<open>C2\<close>

text \<open>
  C2 as stated puts the unconditional barrier after the body before every private
  write.  \<open>body_schedule\<close> gives that barrier rank \<open>s+1\<close> and a private write a rank in
  \<open>1..s\<close>: for the kernel of \<open>private_gen\<close>, with one group, the private write has rank
  1 and the barrier rank 2.
\<close>

theorem C2_barrier_before_private_write_counterexample:
  "body_schedule private_gen all_copied =
     Some [\<lparr>entry_id = Domain_stmt, entry_pos = - 1, entry_val = 0\<rparr>,
           \<lparr>entry_id = Copy_stmt False (0, 0), entry_pos = 2, entry_val = 1\<rparr>,
           \<lparr>entry_id = Copy_stmt True (0, 0), entry_pos = 2, entry_val = - 2\<rparr>,
           \<lparr>entry_id = Sync_stmt, entry_pos = 2, entry_val = 2\<rparr>] \<and>
   private_write_entry (array (gen_kernel private_gen))
     \<lparr>entry_id = Copy_stmt False (0, 0), entry_pos = 2, entry_val = 1\<rparr> \<and>
   \<not> entry_val \<lparr>entry_id = Sync_stmt, entry_pos = 2, entry_val = 2\<rparr>
       < entry_val \<lparr>entry_id = Copy_stmt False (0, 0), entry_pos = 2, entry_val = 1\<rparr>"
  by (simp add: body_schedule_def private_gen_def n_groups_def all_copied_def
      add_group_schedule_def add_sync_schedule_def private_write_entry_def group_at_def)

text \<open>
  C2 (amended): in the schedule built by \<open>body_schedule\<close> for a kernel, the rank of
  every read is strictly less than the rank of every private write, which is strictly
  less than the rank of the unconditional barrier after the body (the last piece, a
  synchronization at the innermost level), which is strictly less than the rank of
  every shared write, which is strictly less than the rank of the final barrier, the
  synchronization scheduled after the writes.
\<close>

theorem C2_rank_chain:
  assumes "body_schedule gen copy_empty = Some res"
  shows "(\<forall>r\<in>set res. \<forall>p\<in>set res.
            read_entry r \<longrightarrow> private_write_entry (array (gen_kernel gen)) p \<longrightarrow>
            entry_val r < entry_val p) \<and>
         (\<forall>r\<in>set res. read_entry r \<longrightarrow> entry_val r < entry_val (last res)) \<and>
         (\<forall>p\<in>set res. private_write_entry (array (gen_kernel gen)) p \<longrightarrow>
            entry_val p < entry_val (last res)) \<and>
         entry_id (last res) = Sync_stmt \<and>
         entry_pos (last res) = shared_len gen - tile_first gen \<and>
         (\<forall>w\<in>set res. shared_write_entry (array (gen_kernel gen)) w \<longrightarrow>
            entry_val (last res) < entry_val w \<and>
            (\<forall>grp. entry_val w < entry_val (final_barrier gen grp))) \<and>
         (\<forall>grp. needs_write_sync gen copy_empty grp \<longrightarrow> final_barrier gen grp \<in> set res)"
proof -
  let ?as = "array (gen_kernel gen)"
  let ?s = "n_groups ?as"
  have fb: "final_barrier gen grp = write_sync gen ?s grp" for grp
    by (simp add: final_barrier_def)
  have rd: "entry_val r \<le> - 2" if "r \<in> set res" "read_entry r" for r
  proof -
    from that(2) obtain grp where c: "entry_id r = Copy_stmt True grp"
      by (auto simp add: read_entry_def split: stmt_id.splits)
    from body_schedule_ok [OF assms] that(1) have "entry_ok gen ?s r" by blast
    from entry_ok_copy [OF this c] group_number_bounds [of ?as grp] show ?thesis by simp
  qed
  have pw: "1 \<le> entry_val p \<and> entry_val p \<le> ?s"
    if "p \<in> set res" "private_write_entry ?as p" for p
  proof -
    from that(2) obtain grp where c: "entry_id p = Copy_stmt False grp"
      and pt: "private_tile (group_at ?as grp) \<noteq> None"
      by (auto simp add: private_write_entry_def split: stmt_id.splits)
    from body_schedule_ok [OF assms] that(1) have "entry_ok gen ?s p" by blast
    from entry_ok_copy [OF this c] group_number_bounds [of ?as grp] pt show ?thesis by simp
  qed
  have sw: "?s + 2 \<le> entry_val w \<and> entry_val w \<le> 2 * ?s + 1"
    if "w \<in> set res" "shared_write_entry ?as w" for w
  proof -
    from that(2) obtain grp where c: "entry_id w = Copy_stmt False grp"
      and pt: "private_tile (group_at ?as grp) = None"
      by (auto simp add: shared_write_entry_def split: stmt_id.splits)
    from body_schedule_ok [OF assms] that(1) have "entry_ok gen ?s w" by blast
    from entry_ok_copy [OF this c] group_number_bounds [of ?as grp] pt show ?thesis by simp
  qed
  have l: "last res = \<lparr>entry_id = Sync_stmt, entry_pos = shared_len gen - tile_first gen,
                      entry_val = ?s + 1\<rparr>"
    using body_schedule_last [OF assms] by (simp add: add.commute)
  then have lv: "entry_val (last res) = ?s + 1" by simp
  have ws: "entry_val (write_sync gen ?s grp) = 2 * ?s + 2" for grp
    by (simp add: write_sync_def)
  have s0: "0 \<le> ?s" using length_concat_groups [of ?as] by linarith
  show ?thesis
  proof (intro conjI ballI allI impI)
    fix r p assume "r \<in> set res" "p \<in> set res" "read_entry r" "private_write_entry ?as p"
    with rd [of r] pw [of p] show "entry_val r < entry_val p" by simp
  next
    fix r assume "r \<in> set res" "read_entry r"
    with rd [of r] lv s0 show "entry_val r < entry_val (last res)" by simp
  next
    fix p assume "p \<in> set res" "private_write_entry ?as p"
    with pw [of p] lv show "entry_val p < entry_val (last res)" by simp
  next
    show "entry_id (last res) = Sync_stmt" using l by simp
  next
    show "entry_pos (last res) = shared_len gen - tile_first gen" using l by simp
  next
    fix w assume "w \<in> set res" "shared_write_entry ?as w"
    with sw [of w] lv show "entry_val (last res) < entry_val w" by simp
  next
    fix w grp assume "w \<in> set res" "shared_write_entry ?as w"
    with sw [of w] ws [of grp] show "entry_val w < entry_val (final_barrier gen grp)"
      by (simp add: fb)
  next
    fix grp assume "needs_write_sync gen copy_empty grp"
    then have "write_sync gen ?s grp \<in> set res" by (rule body_schedule_sync [OF assms])
    then show "final_barrier gen grp \<in> set res" by (simp add: fb)
  qed
qed

theorem C2_rank_chain_witness:
  "body_schedule rank_gen all_copied = Some rank_entries \<and>
   rank_entries ! 3 \<in> set rank_entries \<and> read_entry (rank_entries ! 3) \<and>
   rank_entries ! 9 \<in> set rank_entries \<and>
   private_write_entry (array (gen_kernel rank_gen)) (rank_entries ! 9) \<and>
   rank_entries ! 5 \<in> set rank_entries \<and>
   shared_write_entry (array (gen_kernel rank_gen)) (rank_entries ! 5) \<and>
   entry_val (rank_entries ! 3) < entry_val (rank_entries ! 9) \<and>
   entry_val (rank_entries ! 9) < entry_val (last rank_entries) \<and>
   entry_val (last rank_entries) < entry_val (rank_entries ! 5) \<and>
   entry_val (rank_entries ! 5) < entry_val (final_barrier rank_gen (0, 1))"
proof -
  have m: "rank_entries ! 3 \<in> set rank_entries" "rank_entries ! 9 \<in> set rank_entries"
    "rank_entries ! 5 \<in> set rank_entries"
    by (simp_all add: rank_entries_def)
  have k: "read_entry (rank_entries ! 3)"
    "private_write_entry (array (gen_kernel rank_gen)) (rank_entries ! 9)"
    "shared_write_entry (array (gen_kernel rank_gen)) (rank_entries ! 5)"
    by (simp_all add: rank_entries_def read_entry_def private_write_entry_def
        shared_write_entry_def rank_gen_def budget_kernel_def group_at_def)
  from C2_rank_chain [OF body_schedule_rank_gen] m k body_schedule_rank_gen
  show ?thesis by blast
qed

section \<open>Properties of the schedule constraints\<close>

subsection \<open>C8\<close>

text \<open>
  C8: the constraints that \<open>compute_schedule\<close> hands to the scheduler.  Without live
  range reordering, validity, coincidence and proximity are all the union of the flow
  and the false dependences.  With live range reordering, validity is the union of the
  flow and the forced dependences, proximity the union of the flow and the false
  dependences, and coincidence is validity minus the independences, united with the
  array order.
\<close>

theorem C8_schedule_constraints:
  "(\<not> live_range_reordering \<longrightarrow>
      sc_validity (compute_schedule_constraints live_range_reordering scop array_order) =
        dep_flow scop \<union> dep_false scop \<and>
      sc_coincidence (compute_schedule_constraints live_range_reordering scop array_order) =
        dep_flow scop \<union> dep_false scop \<and>
      sc_proximity (compute_schedule_constraints live_range_reordering scop array_order) =
        dep_flow scop \<union> dep_false scop) \<and>
   (live_range_reordering \<longrightarrow>
      sc_validity (compute_schedule_constraints live_range_reordering scop array_order) =
        dep_flow scop \<union> dep_forced scop \<and>
      sc_proximity (compute_schedule_constraints live_range_reordering scop array_order) =
        dep_flow scop \<union> dep_false scop \<and>
      sc_coincidence (compute_schedule_constraints live_range_reordering scop array_order) =
        (sc_validity (compute_schedule_constraints live_range_reordering scop array_order)
           - independence scop) \<union> array_order)"
proof (cases live_range_reordering)
  case True
  then show ?thesis
    by (simp add: compute_schedule_constraints_def isl_schedule_constraints_on_domain_def
        Let_def)
next
  case False
  then show ?thesis
    by (simp add: compute_schedule_constraints_def isl_schedule_constraints_on_domain_def
        Let_def Un_commute)
qed

theorem C8_schedule_constraints_witness:
  "sc_validity (compute_schedule_constraints True order_scop {(3, 0)}) = {(0, 1), (1, 2), (2, 3)} \<and>
   sc_proximity (compute_schedule_constraints True order_scop {(3, 0)}) = {(0, 1), (1, 2), (1, 0)} \<and>
   sc_coincidence (compute_schedule_constraints True order_scop {(3, 0)}) = {(0, 1), (2, 3), (3, 0)} \<and>
   sc_validity (compute_schedule_constraints False order_scop {(3, 0)}) = {(0, 1), (1, 2), (1, 0)} \<and>
   sc_coincidence (compute_schedule_constraints False order_scop {(3, 0)}) = {(0, 1), (1, 2), (1, 0)} \<and>
   sc_proximity (compute_schedule_constraints False order_scop {(3, 0)}) = {(0, 1), (1, 2), (1, 0)}"
proof -
  have d: "dep_flow order_scop \<union> dep_forced order_scop = {(0, 1), (1, 2), (2, 3)}"
    "dep_flow order_scop \<union> dep_false order_scop = {(0, 1), (1, 2), (1, 0)}"
    "({(0, 1), (1, 2), (2, 3)} - independence order_scop) \<union> {(3, 0)} = {(0, 1), (2, 3), (3, 0)}"
    by (auto simp add: order_scop_def)
  from C8_schedule_constraints [of True order_scop "{(3, 0)}"]
    C8_schedule_constraints [of False order_scop "{(3, 0)}"] d
  show ?thesis by simp
qed

section \<open>Properties of the tiling and wrapping maps\<close>

lemma dot_Nil [simp]: "dot [] x = 0" "dot c [] = 0"
  by (simp_all add: dot_def)

lemma dot_Cons [simp]: "dot (a # c) (x # xs) = a * x + dot c xs"
  by (simp add: dot_def)

lemma dot_replicate_zero [simp]: "dot (replicate n 0) x = 0"
proof (induction n arbitrary: x)
  case 0
  then show ?case by simp
next
  case (Suc n)
  then show ?case by (cases x) simp_all
qed

lemma dot_update:
  "i < length c \<Longrightarrow> i < length x \<Longrightarrow> dot (c[i := a]) x = dot c x + (a - c ! i) * x ! i"
proof (induction c arbitrary: i x)
  case Nil
  then show ?case by simp
next
  case (Cons b c)
  then obtain y ys where x: "x = y # ys" by (cases x) auto
  show ?case
  proof (cases i)
    case 0
    then show ?thesis using x by (simp add: algebra_simps)
  next
    case (Suc m)
    with Cons x show ?thesis by simp
  qed
qed

lemma dot_append:
  "length a = length x \<Longrightarrow> dot (a @ b) (x @ y) = dot a x + dot b y"
  by (induction a x rule: list_induct2) simp_all

lemma fold_steps:
  assumes "\<And>i b. i < n \<Longrightarrow>
      \<exists>cs. step i (Some b) = Some (b\<lparr>bm_constraints := bm_constraints b @ cs\<rparr>) \<and>
           (\<forall>c\<in>set cs. wf_constraint ls c) \<and>
           (\<forall>inp out ex. W inp out \<longrightarrow>
              ((\<forall>c\<in>set cs. constraint_holds c inp out ex) \<longleftrightarrow> P i inp out))"
  shows "\<exists>cs. fold step [0..<n] (Some b) = Some (b\<lparr>bm_constraints := bm_constraints b @ cs\<rparr>) \<and>
           (\<forall>c\<in>set cs. wf_constraint ls c) \<and>
           (\<forall>inp out ex. W inp out \<longrightarrow>
              ((\<forall>c\<in>set cs. constraint_holds c inp out ex) \<longleftrightarrow> (\<forall>i<n. P i inp out)))"
  using assms
proof (induction n)
  case 0
  have "fold step [0..<0] (Some b) = Some (b\<lparr>bm_constraints := bm_constraints b @ []\<rparr>)"
    by simp
  then show ?case by (intro exI [of _ "[]"]) simp
next
  case (Suc n)
  have "\<exists>cs. fold step [0..<n] (Some b) = Some (b\<lparr>bm_constraints := bm_constraints b @ cs\<rparr>) \<and>
           (\<forall>c\<in>set cs. wf_constraint ls c) \<and>
           (\<forall>inp out ex. W inp out \<longrightarrow>
              ((\<forall>c\<in>set cs. constraint_holds c inp out ex) \<longleftrightarrow> (\<forall>i<n. P i inp out)))"
  proof (rule Suc.IH)
    fix i b assume "i < n"
    then have "i < Suc n" by simp
    then show "\<exists>cs. step i (Some b) = Some (b\<lparr>bm_constraints := bm_constraints b @ cs\<rparr>) \<and>
           (\<forall>c\<in>set cs. wf_constraint ls c) \<and>
           (\<forall>inp out ex. W inp out \<longrightarrow>
              ((\<forall>c\<in>set cs. constraint_holds c inp out ex) \<longleftrightarrow> P i inp out))"
      by (rule Suc.prems)
  qed
  then obtain cs1 where a1:
    "fold step [0..<n] (Some b) = Some (b\<lparr>bm_constraints := bm_constraints b @ cs1\<rparr>) \<and>
           (\<forall>c\<in>set cs1. wf_constraint ls c) \<and>
           (\<forall>inp out ex. W inp out \<longrightarrow>
              ((\<forall>c\<in>set cs1. constraint_holds c inp out ex) \<longleftrightarrow> (\<forall>i<n. P i inp out)))" ..
  then have f1: "fold step [0..<n] (Some b) = Some (b\<lparr>bm_constraints := bm_constraints b @ cs1\<rparr>)"
    and w1: "\<forall>c\<in>set cs1. wf_constraint ls c"
    and s1: "\<forall>inp out ex. W inp out \<longrightarrow>
              ((\<forall>c\<in>set cs1. constraint_holds c inp out ex) \<longleftrightarrow> (\<forall>i<n. P i inp out))"
    by (rule conjunct1, rule conjunct2 [THEN conjunct1], rule conjunct2 [THEN conjunct2])
  let ?b1 = "b\<lparr>bm_constraints := bm_constraints b @ cs1\<rparr>"
  have "\<exists>cs. step n (Some ?b1) = Some (?b1\<lparr>bm_constraints := bm_constraints ?b1 @ cs\<rparr>) \<and>
           (\<forall>c\<in>set cs. wf_constraint ls c) \<and>
           (\<forall>inp out ex. W inp out \<longrightarrow>
              ((\<forall>c\<in>set cs. constraint_holds c inp out ex) \<longleftrightarrow> P n inp out))"
    by (rule Suc.prems) simp
  then obtain cs2 where a2:
    "step n (Some ?b1) = Some (?b1\<lparr>bm_constraints := bm_constraints ?b1 @ cs2\<rparr>) \<and>
           (\<forall>c\<in>set cs2. wf_constraint ls c) \<and>
           (\<forall>inp out ex. W inp out \<longrightarrow>
              ((\<forall>c\<in>set cs2. constraint_holds c inp out ex) \<longleftrightarrow> P n inp out))" ..
  then have f2: "step n (Some ?b1) = Some (?b1\<lparr>bm_constraints := bm_constraints ?b1 @ cs2\<rparr>)"
    and w2: "\<forall>c\<in>set cs2. wf_constraint ls c"
    and s2: "\<forall>inp out ex. W inp out \<longrightarrow>
              ((\<forall>c\<in>set cs2. constraint_holds c inp out ex) \<longleftrightarrow> P n inp out)"
    by (rule conjunct1, rule conjunct2 [THEN conjunct1], rule conjunct2 [THEN conjunct2])
  have f: "fold step [0..<Suc n] (Some b) = Some (b\<lparr>bm_constraints := bm_constraints b @ (cs1 @ cs2)\<rparr>)"
    using f1 f2 by simp
  have w: "\<forall>c\<in>set (cs1 @ cs2). wf_constraint ls c" using w1 w2 by auto
  have s: "\<forall>inp out ex. W inp out \<longrightarrow>
     ((\<forall>c\<in>set (cs1 @ cs2). constraint_holds c inp out ex) \<longleftrightarrow> (\<forall>i<Suc n. P i inp out))"
  proof (intro allI impI)
    fix inp out ex assume "W inp out"
    with s1 s2 have "(\<forall>c\<in>set cs1. constraint_holds c inp out ex) \<longleftrightarrow> (\<forall>i<n. P i inp out)"
      "(\<forall>c\<in>set cs2. constraint_holds c inp out ex) \<longleftrightarrow> P n inp out"
      by blast+
    then show "(\<forall>c\<in>set (cs1 @ cs2). constraint_holds c inp out ex) \<longleftrightarrow> (\<forall>i<Suc n. P i inp out)"
      by (auto simp add: less_Suc_eq)
  qed
  from f w s show ?case by (intro exI [of _ "cs1 @ cs2"] conjI)
qed

lemma tile_copy_step_Some:
  assumes "i < len - tile_len" and ls: "ls = \<lparr>n_in = len, n_out = len + tile_len\<rparr>"
  shows "\<exists>cs. tile_copy_step ls first tile_len i (Some b) =
                Some (b\<lparr>bm_constraints := bm_constraints b @ cs\<rparr>) \<and>
           (\<forall>c\<in>set cs. wf_constraint ls c) \<and>
           (\<forall>inp out ex. length inp = len \<and> length out = len + tile_len \<longrightarrow>
              ((\<forall>c\<in>set cs. constraint_holds c inp out ex) \<longleftrightarrow>
               out ! (if i < first then i else i + 2 * tile_len) =
               inp ! (if i < first then i else i + tile_len)))"
proof -
  let ?j = "if i < first then i else i + tile_len"
  let ?k = "if i < first then i else i + 2 * tile_len"
  let ?c = "\<lparr>c_eq = True, c_in = (replicate len 0)[?j := - 1],
             c_out = (replicate (len + tile_len) 0)[?k := 1], c_div = [], c_const = 0\<rparr>"
  have j: "?j < len" and k: "?k < len + tile_len" using assms(1) by auto
  have "tile_copy_step ls first tile_len i (Some b) =
          Some (b\<lparr>bm_constraints := bm_constraints b @ [?c]\<rparr>)"
    using j k by (simp add: tile_copy_step_def ls isl_equality_alloc_def
        isl_basic_map_add_constraint_def Let_def)
  moreover have "wf_constraint ls ?c" by (simp add: wf_constraint_def ls)
  moreover have "constraint_holds ?c inp out ex \<longleftrightarrow> out ! ?k = inp ! ?j"
    if "length inp = len" "length out = len + tile_len" for inp out ex
    using that j k by (simp add: constraint_holds_def dot_update)
  ultimately show ?thesis by (intro exI [of _ "[?c]"]) simp
qed

lemma tile_split_step_Some:
  assumes "i < tile_len" "first + tile_len \<le> len"
    and ls: "ls = \<lparr>n_in = len, n_out = len + tile_len\<rparr>"
  shows "\<exists>cs. tile_split_step ls first tile_len tile_size i (Some b) =
                Some (b\<lparr>bm_constraints := bm_constraints b @ cs\<rparr>) \<and>
           (\<forall>c\<in>set cs. wf_constraint ls c) \<and>
           (\<forall>inp out ex. length inp = len \<and> length out = len + tile_len \<longrightarrow>
              ((\<forall>c\<in>set cs. constraint_holds c inp out ex) \<longleftrightarrow>
               inp ! (first + i) =
                 tile_size ! i * out ! (first + i) + out ! (first + i + tile_len) \<and>
               0 \<le> out ! (first + i + tile_len) \<and>
               out ! (first + i + tile_len) \<le> tile_size ! i - 1))"
proof -
  let ?z = "replicate (len + tile_len) (0::int)"
  let ?e = "\<lparr>c_eq = True, c_in = (replicate len 0)[first + i := - 1],
             c_out = ?z[first + i := tile_size ! i, first + i + tile_len := 1],
             c_div = [], c_const = 0\<rparr>"
  let ?l = "\<lparr>c_eq = False, c_in = replicate len 0,
             c_out = ?z[first + i + tile_len := 1], c_div = [], c_const = 0\<rparr>"
  let ?u = "\<lparr>c_eq = False, c_in = replicate len 0,
             c_out = ?z[first + i + tile_len := - 1], c_div = [], c_const = tile_size ! i - 1\<rparr>"
  have r: "first + i < len" "first + i < len + tile_len" "first + i + tile_len < len + tile_len"
    "first + i \<noteq> first + i + tile_len"
    using assms(1,2) by simp_all
  have "tile_split_step ls first tile_len tile_size i (Some b) =
          Some (b\<lparr>bm_constraints := bm_constraints b @ [?e, ?l, ?u]\<rparr>)"
    using r by (simp add: tile_split_step_def ls isl_equality_alloc_def isl_inequality_alloc_def
        isl_basic_map_add_constraint_def isl_constraint_set_constant_si_def Let_def)
  moreover have "\<forall>c\<in>set [?e, ?l, ?u]. wf_constraint ls c" by (simp add: wf_constraint_def ls)
  moreover have "(\<forall>c\<in>set [?e, ?l, ?u]. constraint_holds c inp out ex) \<longleftrightarrow>
               inp ! (first + i) =
                 tile_size ! i * out ! (first + i) + out ! (first + i + tile_len) \<and>
               0 \<le> out ! (first + i + tile_len) \<and>
               out ! (first + i + tile_len) \<le> tile_size ! i - 1"
    if "length inp = len" "length out = len + tile_len" for inp out ex
    using that r by (auto simp add: constraint_holds_def dot_update)
  ultimately show ?thesis by (intro exI [of _ "[?e, ?l, ?u]"]) simp
qed

lemma tile_Some:
  assumes "first + tile_len \<le> len"
  shows "\<exists>cs. tile len first tile_len tile_size =
           Some [\<lparr>bm_space = \<lparr>n_in = len, n_out = len + tile_len\<rparr>, bm_n_div = 0,
                  bm_constraints = cs\<rparr>] \<and>
           (\<forall>inp out. length inp = len \<and> length out = len + tile_len \<longrightarrow>
              ((\<forall>c\<in>set cs. constraint_holds c inp out []) \<longleftrightarrow>
               tile_relation len first tile_len tile_size inp out))"
proof -
  let ?ls = "\<lparr>n_in = len, n_out = len + tile_len\<rparr>"
  let ?W = "\<lambda>inp out. length inp = len \<and> length out = len + tile_len"
  let ?b0 = "\<lparr>bm_space = ?ls, bm_n_div = 0, bm_constraints = []\<rparr>"
  let ?P1 = "\<lambda>i inp out. out ! (if i < first then i else i + 2 * tile_len) =
               inp ! (if i < first then i else i + tile_len)"
  let ?P2 = "\<lambda>i inp out. inp ! (first + i) =
                 tile_size ! i * out ! (first + i) + out ! (first + i + tile_len) \<and>
               0 \<le> out ! (first + i + tile_len) \<and>
               out ! (first + i + tile_len) \<le> tile_size ! i - 1"
  have "\<exists>cs. fold (tile_copy_step ?ls first tile_len) [0..<len - tile_len] (Some ?b0) =
           Some (?b0\<lparr>bm_constraints := bm_constraints ?b0 @ cs\<rparr>) \<and>
           (\<forall>c\<in>set cs. wf_constraint ?ls c) \<and>
           (\<forall>inp out ex. ?W inp out \<longrightarrow>
              ((\<forall>c\<in>set cs. constraint_holds c inp out ex) \<longleftrightarrow> (\<forall>i<len - tile_len. ?P1 i inp out)))"
    by (rule fold_steps) (rule tile_copy_step_Some, simp_all)
  then obtain cs1 where a1:
    "fold (tile_copy_step ?ls first tile_len) [0..<len - tile_len] (Some ?b0) =
           Some (?b0\<lparr>bm_constraints := bm_constraints ?b0 @ cs1\<rparr>) \<and>
           (\<forall>c\<in>set cs1. wf_constraint ?ls c) \<and>
           (\<forall>inp out ex. ?W inp out \<longrightarrow>
              ((\<forall>c\<in>set cs1. constraint_holds c inp out ex) \<longleftrightarrow> (\<forall>i<len - tile_len. ?P1 i inp out)))" ..
  let ?b1 = "\<lparr>bm_space = ?ls, bm_n_div = 0, bm_constraints = cs1\<rparr>"
  from a1 have f1: "fold (tile_copy_step ?ls first tile_len) [0..<len - tile_len] (Some ?b0) = Some ?b1"
    by simp
  from a1 have s1: "\<forall>inp out ex. ?W inp out \<longrightarrow>
              ((\<forall>c\<in>set cs1. constraint_holds c inp out ex) \<longleftrightarrow> (\<forall>i<len - tile_len. ?P1 i inp out))"
    by (rule conjunct2 [THEN conjunct2])
  have "\<exists>cs. fold (tile_split_step ?ls first tile_len tile_size) [0..<tile_len] (Some ?b1) =
           Some (?b1\<lparr>bm_constraints := bm_constraints ?b1 @ cs\<rparr>) \<and>
           (\<forall>c\<in>set cs. wf_constraint ?ls c) \<and>
           (\<forall>inp out ex. ?W inp out \<longrightarrow>
              ((\<forall>c\<in>set cs. constraint_holds c inp out ex) \<longleftrightarrow> (\<forall>i<tile_len. ?P2 i inp out)))"
    by (rule fold_steps) (rule tile_split_step_Some, simp_all add: assms)
  then obtain cs2 where a2:
    "fold (tile_split_step ?ls first tile_len tile_size) [0..<tile_len] (Some ?b1) =
           Some (?b1\<lparr>bm_constraints := bm_constraints ?b1 @ cs2\<rparr>) \<and>
           (\<forall>c\<in>set cs2. wf_constraint ?ls c) \<and>
           (\<forall>inp out ex. ?W inp out \<longrightarrow>
              ((\<forall>c\<in>set cs2. constraint_holds c inp out ex) \<longleftrightarrow> (\<forall>i<tile_len. ?P2 i inp out)))" ..
  from a2 have f2: "fold (tile_split_step ?ls first tile_len tile_size) [0..<tile_len] (Some ?b1) =
           Some \<lparr>bm_space = ?ls, bm_n_div = 0, bm_constraints = cs1 @ cs2\<rparr>"
    by simp
  from a2 have s2: "\<forall>inp out ex. ?W inp out \<longrightarrow>
              ((\<forall>c\<in>set cs2. constraint_holds c inp out ex) \<longleftrightarrow> (\<forall>i<tile_len. ?P2 i inp out))"
    by (rule conjunct2 [THEN conjunct2])
  have t: "tile len first tile_len tile_size =
           Some [\<lparr>bm_space = ?ls, bm_n_div = 0, bm_constraints = cs1 @ cs2\<rparr>]"
    using f1 f2 by (simp add: tile_def isl_basic_map_universe_def isl_map_from_basic_map_def Let_def)
  have "(\<forall>c\<in>set (cs1 @ cs2). constraint_holds c inp out []) \<longleftrightarrow>
               tile_relation len first tile_len tile_size inp out"
    if "length inp = len \<and> length out = len + tile_len" for inp out
  proof -
    from s1 s2 that have A: "(\<forall>c\<in>set cs1. constraint_holds c inp out []) \<longleftrightarrow> (\<forall>i<len - tile_len. ?P1 i inp out)"
      and B: "(\<forall>c\<in>set cs2. constraint_holds c inp out []) \<longleftrightarrow> (\<forall>i<tile_len. ?P2 i inp out)"
      by blast+
    have C: "(\<forall>c\<in>set (cs1 @ cs2). constraint_holds c inp out []) \<longleftrightarrow>
      (\<forall>c\<in>set cs1. constraint_holds c inp out []) \<and> (\<forall>c\<in>set cs2. constraint_holds c inp out [])"
      by auto
    show ?thesis unfolding C A B using that by (simp add: tile_relation_def)
  qed
  with t show ?thesis by (intro exI [of _ "cs1 @ cs2"]) simp
qed

lemma in_map_tile:
  assumes "first + tile_len \<le> len"
  shows "\<exists>m. tile len first tile_len tile_size = Some m \<and>
             (\<forall>inp out. in_map m inp out \<longleftrightarrow> tile_relation len first tile_len tile_size inp out)"
proof -
  from tile_Some [OF assms, of tile_size] obtain cs where
    t: "tile len first tile_len tile_size =
           Some [\<lparr>bm_space = \<lparr>n_in = len, n_out = len + tile_len\<rparr>, bm_n_div = 0,
                  bm_constraints = cs\<rparr>]" and
    s: "\<forall>inp out. length inp = len \<and> length out = len + tile_len \<longrightarrow>
              ((\<forall>c\<in>set cs. constraint_holds c inp out []) \<longleftrightarrow>
               tile_relation len first tile_len tile_size inp out)"
    by blast
  have "in_map [\<lparr>bm_space = \<lparr>n_in = len, n_out = len + tile_len\<rparr>, bm_n_div = 0,
                  bm_constraints = cs\<rparr>] inp out \<longleftrightarrow>
        tile_relation len first tile_len tile_size inp out" for inp out
  proof (cases "length inp = len \<and> length out = len + tile_len")
    case True
    with s show ?thesis by (simp add: in_map_def in_basic_map_def)
  next
    case False
    then show ?thesis by (auto simp add: in_map_def in_basic_map_def tile_relation_def)
  qed
  with t show ?thesis by simp
qed

lemma tile_point_nth:
  assumes "k < len + tlen"
  shows "tile_point len first tlen tile_size inp ! k =
         (if k < first then inp ! k
          else if k < first + tlen then inp ! k div tile_size ! (k - first)
          else if k < first + 2 * tlen
               then inp ! (k - tlen) mod tile_size ! (k - tlen - first)
          else inp ! (k - tlen))"
  using assms by (simp add: tile_point_def del: upt_Suc)

lemma tile_relation_unique:
  assumes pos: "\<forall>i<tlen. 0 < tile_size ! i"
    and fit: "first + tlen \<le> len"
    and rel: "tile_relation len first tlen tile_size inp out"
  shows "out = tile_point len first tlen tile_size inp"
proof (rule nth_equalityI)
  from rel have lo: "length out = len + tlen" by (simp add: tile_relation_def)
  then show "length out = length (tile_point len first tlen tile_size inp)"
    by (simp add: tile_point_def)
  from rel have copy: "\<And>i. i < len - tlen \<Longrightarrow>
      out ! (if i < first then i else i + 2 * tlen) = inp ! (if i < first then i else i + tlen)"
    by (simp add: tile_relation_def)
  from rel have split: "\<And>i. i < tlen \<Longrightarrow>
      inp ! (first + i) = tile_size ! i * out ! (first + i) + out ! (first + i + tlen) \<and>
      0 \<le> out ! (first + i + tlen) \<and> out ! (first + i + tlen) \<le> tile_size ! i - 1"
    by (simp add: tile_relation_def)
  fix k assume "k < length out"
  with lo have k: "k < len + tlen" by simp
  consider (a) "k < first" | (b) "first \<le> k" "k < first + tlen"
    | (c) "first + tlen \<le> k" "k < first + 2 * tlen" | (d) "first + 2 * tlen \<le> k"
    by linarith
  then have "out ! k =
         (if k < first then inp ! k
          else if k < first + tlen then inp ! k div tile_size ! (k - first)
          else if k < first + 2 * tlen
               then inp ! (k - tlen) mod tile_size ! (k - tlen - first)
          else inp ! (k - tlen))"
  proof cases
    case a
    with fit have "k < len - tlen" by simp
    from copy [OF this] a show ?thesis by simp
  next
    case b
    then have i: "k - first < tlen" and e: "first + (k - first) = k" by simp_all
    from split [OF i] e have "inp ! k = tile_size ! (k - first) * out ! k + out ! (k + tlen)"
      "0 \<le> out ! (k + tlen)" "out ! (k + tlen) < tile_size ! (k - first)"
      by simp_all
    then have "inp ! k div tile_size ! (k - first) = out ! k"
      by (rule int_div_pos_eq)
    with b show ?thesis by simp
  next
    case c
    then have i: "k - tlen - first < tlen" and e: "first + (k - tlen - first) = k - tlen"
      "first + (k - tlen - first) + tlen = k"
      by simp_all
    from split [OF i] e have "inp ! (k - tlen) =
        tile_size ! (k - tlen - first) * out ! (k - tlen) + out ! k"
      "0 \<le> out ! k" "out ! k < tile_size ! (k - tlen - first)"
      by simp_all
    then have "inp ! (k - tlen) mod tile_size ! (k - tlen - first) = out ! k"
      by (rule int_mod_pos_eq)
    with c show ?thesis by simp
  next
    case d
    with k have i: "k - 2 * tlen < len - tlen" and nf: "\<not> k - 2 * tlen < first"
      and e: "k - 2 * tlen + 2 * tlen = k" "k - 2 * tlen + tlen = k - tlen"
      by simp_all
    from copy [OF i] nf e have "out ! k = inp ! (k - tlen)" by simp
    with d show ?thesis by simp
  qed
  with k show "out ! k = tile_point len first tlen tile_size inp ! k"
    by (simp only: tile_point_nth)
qed

lemma tile_relation_point:
  assumes pos: "\<forall>i<tlen. 0 < tile_size ! i"
    and fit: "first + tlen \<le> len"
    and len: "length inp = len"
  shows "tile_relation len first tlen tile_size inp (tile_point len first tlen tile_size inp)"
proof -
  let ?out = "tile_point len first tlen tile_size inp"
  have lo: "length ?out = len + tlen" by (simp add: tile_point_def)
  have copy: "?out ! (if i < first then i else i + 2 * tlen) =
              inp ! (if i < first then i else i + tlen)" if "i < len - tlen" for i
  proof (cases "i < first")
    case True
    with that show ?thesis by (simp add: tile_point_nth)
  next
    case False
    with that have "i + 2 * tlen < len + tlen" by simp
    with False show ?thesis by (simp add: tile_point_nth add.commute)
  qed
  have split: "inp ! (first + i) = tile_size ! i * ?out ! (first + i) + ?out ! (first + i + tlen) \<and>
      0 \<le> ?out ! (first + i + tlen) \<and> ?out ! (first + i + tlen) \<le> tile_size ! i - 1"
    if "i < tlen" for i
  proof -
    from that fit have k: "first + i < len + tlen" "first + i + tlen < len + tlen" by simp_all
    have q: "?out ! (first + i) = inp ! (first + i) div tile_size ! i"
      using that k(1) by (simp add: tile_point_nth)
    have r: "?out ! (first + i + tlen) = inp ! (first + i) mod tile_size ! i"
      using that k(2) by (simp add: tile_point_nth)
    from pos that have p: "0 < tile_size ! i" by simp
    then have "0 \<le> inp ! (first + i) mod tile_size ! i"
      "inp ! (first + i) mod tile_size ! i < tile_size ! i"
      by simp_all
    then show ?thesis unfolding q r by simp
  qed
  from len lo copy split show ?thesis unfolding tile_relation_def by blast
qed

subsection \<open>C3\<close>

text \<open>
  C3: for tile sizes that are all positive (and a tiled range \<open>first .. first + tile_len\<close>
  inside the \<open>len\<close> input dimensions), \<open>tile\<close> returns a map that relates every input
  point to exactly one output point.  In that point each tiled coordinate \<open>i\<close> is split
  into an outer and an inner part with \<open>s_i = size[i] * outer_i + inner_i\<close> and
  \<open>0 \<le> inner_i < size[i]\<close>, so that recombining gives the coordinate back; the outer
  part is the quotient and the inner part the remainder; the coordinates before and
  after the tiled range are passed through unchanged.
\<close>

theorem C3_tile_round_trip:
  assumes "\<forall>i<tile_len. 0 < tile_size ! i"
    and "first + tile_len \<le> len"
    and "length inp = len"
  shows "\<exists>m. tile len first tile_len tile_size = Some m \<and>
           (\<exists>!out. in_map m inp out) \<and>
           (\<forall>out. in_map m inp out \<longrightarrow>
              length out = len + tile_len \<and>
              (\<forall>i<tile_len.
                 tile_size ! i * out ! (first + i) + out ! (first + i + tile_len) = inp ! (first + i) \<and>
                 0 \<le> out ! (first + i + tile_len) \<and>
                 out ! (first + i + tile_len) < tile_size ! i \<and>
                 out ! (first + i) = inp ! (first + i) div tile_size ! i \<and>
                 out ! (first + i + tile_len) = inp ! (first + i) mod tile_size ! i) \<and>
              (\<forall>i<first. out ! i = inp ! i) \<and>
              (\<forall>i. first + tile_len \<le> i \<and> i < len \<longrightarrow> out ! (i + tile_len) = inp ! i))"
proof -
  from in_map_tile [OF assms(2), of tile_size] obtain m where
    t: "tile len first tile_len tile_size = Some m" and
    r: "\<And>inp out. in_map m inp out \<longleftrightarrow> tile_relation len first tile_len tile_size inp out"
    by blast
  let ?p = "tile_point len first tile_len tile_size inp"
  have mem: "in_map m inp ?p"
    using tile_relation_point [OF assms] r by simp
  have uniq: "out = ?p" if "in_map m inp out" for out
    using tile_relation_unique [OF assms(1,2)] r that by simp
  have ex1: "\<exists>!out. in_map m inp out"
    using mem uniq by blast
  have props: "length out = len + tile_len \<and>
              (\<forall>i<tile_len.
                 tile_size ! i * out ! (first + i) + out ! (first + i + tile_len) = inp ! (first + i) \<and>
                 0 \<le> out ! (first + i + tile_len) \<and>
                 out ! (first + i + tile_len) < tile_size ! i \<and>
                 out ! (first + i) = inp ! (first + i) div tile_size ! i \<and>
                 out ! (first + i + tile_len) = inp ! (first + i) mod tile_size ! i) \<and>
              (\<forall>i<first. out ! i = inp ! i) \<and>
              (\<forall>i. first + tile_len \<le> i \<and> i < len \<longrightarrow> out ! (i + tile_len) = inp ! i)"
    if "in_map m inp out" for out
  proof -
    from uniq [OF that] have o: "out = ?p" .
    have l: "length ?p = len + tile_len" by (simp add: tile_point_def)
    have s: "tile_size ! i * ?p ! (first + i) + ?p ! (first + i + tile_len) = inp ! (first + i) \<and>
                 0 \<le> ?p ! (first + i + tile_len) \<and>
                 ?p ! (first + i + tile_len) < tile_size ! i \<and>
                 ?p ! (first + i) = inp ! (first + i) div tile_size ! i \<and>
                 ?p ! (first + i + tile_len) = inp ! (first + i) mod tile_size ! i"
      if "i < tile_len" for i
    proof -
      from that assms(2) have k: "first + i < len + tile_len" "first + i + tile_len < len + tile_len"
        by simp_all
      have q: "?p ! (first + i) = inp ! (first + i) div tile_size ! i"
        using that k(1) by (simp add: tile_point_nth)
      have rm: "?p ! (first + i + tile_len) = inp ! (first + i) mod tile_size ! i"
        using that k(2) by (simp add: tile_point_nth)
      from assms(1) that have "0 < tile_size ! i" by simp
      then show ?thesis unfolding q rm by simp
    qed
    have b: "?p ! i = inp ! i" if "i < first" for i
      using that assms(2) by (simp add: tile_point_nth)
    have a: "?p ! (i + tile_len) = inp ! i" if "first + tile_len \<le> i \<and> i < len" for i
      using that by (simp add: tile_point_nth)
    from l s b a show ?thesis unfolding o by blast
  qed
  from t ex1 props show ?thesis by blast
qed

theorem C3_tile_round_trip_witness:
  "0 < [4, 3 :: int] ! 0 \<and> 0 < [4, 3 :: int] ! 1 \<and>
   1 + 2 \<le> (4 :: nat) \<and> length [7, 13, - 5, 9 :: int] = 4 \<and>
   (\<exists>m. tile 4 1 2 [4, 3] = Some m \<and>
        in_map m [7, 13, - 5, 9] [7, 3, - 2, 1, 1, 9] \<and>
        (\<forall>out. in_map m [7, 13, - 5, 9] out \<longrightarrow> out = [7, 3, - 2, 1, 1, 9]))"
proof -
  have h1: "\<forall>i<2. 0 < [4, 3 :: int] ! i" by (simp add: less_Suc_eq numeral_2_eq_2)
  have h2: "1 + 2 \<le> (4 :: nat)" by simp
  have h3: "length [7, 13, - 5, 9 :: int] = 4" by simp
  from C3_tile_round_trip [OF h1 h2 h3] obtain m where
    t: "tile 4 1 2 [4, 3] = Some m" and
    u: "\<exists>!out. in_map m [7, 13, - 5, 9] out" and
    p: "\<forall>out. in_map m [7, 13, - 5, 9] out \<longrightarrow>
              length out = 4 + 2 \<and>
              (\<forall>i<2.
                 [4, 3] ! i * out ! (1 + i) + out ! (1 + i + 2) = [7, 13, - 5, 9] ! (1 + i) \<and>
                 0 \<le> out ! (1 + i + 2) \<and>
                 out ! (1 + i + 2) < [4, 3] ! i \<and>
                 out ! (1 + i) = [7, 13, - 5, 9] ! (1 + i) div [4, 3] ! i \<and>
                 out ! (1 + i + 2) = [7, 13, - 5, 9] ! (1 + i) mod [4, 3] ! i) \<and>
              (\<forall>i<1. out ! i = [7, 13, - 5, 9] ! i) \<and>
              (\<forall>i. 1 + 2 \<le> i \<and> i < 4 \<longrightarrow> out ! (i + 2) = [7, 13, - 5, 9] ! i)"
    by blast
  have e: "out = [7, 3, - 2, 1, 1, 9]" if "in_map m [7, 13, - 5, 9] out" for out
  proof -
    from p that have P: "length out = 4 + 2 \<and>
              (\<forall>i<2.
                 [4, 3] ! i * out ! (1 + i) + out ! (1 + i + 2) = [7, 13, - 5, 9] ! (1 + i) \<and>
                 0 \<le> out ! (1 + i + 2) \<and>
                 out ! (1 + i + 2) < [4, 3] ! i \<and>
                 out ! (1 + i) = [7, 13, - 5, 9] ! (1 + i) div [4, 3] ! i \<and>
                 out ! (1 + i + 2) = [7, 13, - 5, 9] ! (1 + i) mod [4, 3] ! i) \<and>
              (\<forall>i<1. out ! i = [7, 13, - 5, 9] ! i) \<and>
              (\<forall>i. 1 + 2 \<le> i \<and> i < 4 \<longrightarrow> out ! (i + 2) = [7, 13, - 5, 9] ! i)"
      by blast
    then have l: "length out = 6" by simp
    from P have s: "\<forall>i<2. out ! (1 + i) = [7, 13, - 5, 9] ! (1 + i) div [4, 3] ! i \<and>
                 out ! (1 + i + 2) = [7, 13, - 5, 9] ! (1 + i) mod [4, 3] ! i"
      by blast
    from P have "\<forall>i<1. out ! i = [7, 13, - 5, 9] ! i" by blast
    then have "(0::nat) < 1 \<longrightarrow> out ! 0 = [7, 13, - 5, 9] ! 0" by (rule spec)
    then have b: "out ! 0 = 7" by simp
    from P have "\<forall>i. 1 + 2 \<le> i \<and> i < 4 \<longrightarrow> out ! (i + 2) = [7, 13, - 5, 9] ! i" by blast
    then have "1 + 2 \<le> (3::nat) \<and> (3::nat) < 4 \<longrightarrow> out ! (3 + 2) = [7, 13, - 5, 9] ! 3"
      by (rule spec)
    then have a: "out ! 5 = 9" by (simp add: eval_nat_numeral)
    from s have "(0::nat) < 2 \<longrightarrow> out ! (1 + 0) = [7, 13, - 5, 9] ! (1 + 0) div [4, 3] ! 0 \<and>
                 out ! (1 + 0 + 2) = [7, 13, - 5, 9] ! (1 + 0) mod [4, 3] ! 0"
      by (rule spec)
    then have s0: "out ! 1 = 3" "out ! 3 = 1" by (simp_all add: eval_nat_numeral)
    from s have "(1::nat) < 2 \<longrightarrow> out ! (1 + 1) = [7, 13, - 5, 9] ! (1 + 1) div [4, 3] ! 1 \<and>
                 out ! (1 + 1 + 2) = [7, 13, - 5, 9] ! (1 + 1) mod [4, 3] ! 1"
      by (rule spec)
    then have s1: "out ! 2 = - 2" "out ! 4 = 1" by (simp_all add: eval_nat_numeral)
    have "out ! k = [7, 3, - 2, 1, 1, 9] ! k" if "k < 6" for k
    proof -
      from that consider "k = 0" | "k = 1" | "k = 2" | "k = 3" | "k = 4" | "k = 5" by linarith
      then show ?thesis using b a s0 s1 by cases simp_all
    qed
    with l show ?thesis by (intro nth_equalityI) simp_all
  qed
  from u obtain out where o: "in_map m [7, 13, - 5, 9] out" by blast
  with e have "in_map m [7, 13, - 5, 9] [7, 3, - 2, 1, 1, 9]" by simp
  with t e have "\<exists>m. tile 4 1 2 [4, 3] = Some m \<and>
        in_map m [7, 13, - 5, 9] [7, 3, - 2, 1, 1, 9] \<and>
        (\<forall>out. in_map m [7, 13, - 5, 9] out \<longrightarrow> out = [7, 3, - 2, 1, 1, 9])"
    by blast
  with h2 h3 show ?thesis by simp
qed

lemma wrap_copy_step_Some:
  assumes "i < len" and ls: "ls = \<lparr>n_in = len, n_out = len + 2 * wrap_len\<rparr>"
  shows "\<exists>cs. wrap_copy_step ls first wrap_len i (Some b) =
                Some (b\<lparr>bm_constraints := bm_constraints b @ cs\<rparr>) \<and>
           (\<forall>c\<in>set cs. wf_constraint ls c) \<and>
           (\<forall>inp out ex. length inp = len \<and> length out = len + 2 * wrap_len \<longrightarrow>
              ((\<forall>c\<in>set cs. constraint_holds c inp out ex) \<longleftrightarrow>
               out ! (if i < first + wrap_len then i else i + 2 * wrap_len) = inp ! i))"
proof -
  let ?k = "if i < first + wrap_len then i else i + 2 * wrap_len"
  let ?c = "\<lparr>c_eq = True, c_in = (replicate len 0)[i := - 1],
             c_out = (replicate (len + 2 * wrap_len) 0)[?k := 1], c_div = [], c_const = 0\<rparr>"
  have k: "?k < len + 2 * wrap_len" using assms(1) by auto
  have "wrap_copy_step ls first wrap_len i (Some b) =
          Some (b\<lparr>bm_constraints := bm_constraints b @ [?c]\<rparr>)"
    using assms(1) k by (simp add: wrap_copy_step_def ls isl_equality_alloc_def
        isl_basic_map_add_constraint_def Let_def)
  moreover have "wf_constraint ls ?c" by (simp add: wf_constraint_def ls)
  moreover have "constraint_holds ?c inp out ex \<longleftrightarrow> out ! ?k = inp ! i"
    if "length inp = len" "length out = len + 2 * wrap_len" for inp out ex
    using that assms(1) k by (simp add: constraint_holds_def dot_update)
  ultimately show ?thesis by (intro exI [of _ "[?c]"]) simp
qed

lemma wrap_split_step_Some:
  assumes "i < wrap_len" "first + wrap_len \<le> len"
    and ls: "ls = \<lparr>n_in = len, n_out = len + 2 * wrap_len\<rparr>"
  shows "\<exists>cs. wrap_split_step ls first wrap_len wrap_size i (Some b) =
                Some (b\<lparr>bm_constraints := bm_constraints b @ cs\<rparr>) \<and>
           (\<forall>c\<in>set cs. wf_constraint ls c) \<and>
           (\<forall>inp out ex. length inp = len \<and> length out = len + 2 * wrap_len \<longrightarrow>
              ((\<forall>c\<in>set cs. constraint_holds c inp out ex) \<longleftrightarrow>
               - out ! (first + i) + out ! (first + wrap_len + i) +
                   wrap_size ! i * out ! (first + 2 * wrap_len + i) = 0 \<and>
               0 \<le> out ! (first + wrap_len + i) \<and>
               out ! (first + wrap_len + i) \<le> wrap_size ! i - 1))"
proof -
  let ?z = "replicate (len + 2 * wrap_len) (0::int)"
  let ?e = "\<lparr>c_eq = True, c_in = replicate len 0,
             c_out = ?z[first + i := - 1, first + wrap_len + i := 1,
                        first + 2 * wrap_len + i := wrap_size ! i],
             c_div = [], c_const = 0\<rparr>"
  let ?l = "\<lparr>c_eq = False, c_in = replicate len 0,
             c_out = ?z[first + wrap_len + i := 1], c_div = [], c_const = 0\<rparr>"
  let ?u = "\<lparr>c_eq = False, c_in = replicate len 0,
             c_out = ?z[first + wrap_len + i := - 1], c_div = [], c_const = wrap_size ! i - 1\<rparr>"
  have r: "first + i < len + 2 * wrap_len" "first + wrap_len + i < len + 2 * wrap_len"
    "first + 2 * wrap_len + i < len + 2 * wrap_len"
    "first + i \<noteq> first + wrap_len + i" "first + i \<noteq> first + 2 * wrap_len + i"
    "first + wrap_len + i \<noteq> first + 2 * wrap_len + i"
    using assms(1,2) by simp_all
  have "wrap_split_step ls first wrap_len wrap_size i (Some b) =
          Some (b\<lparr>bm_constraints := bm_constraints b @ [?e, ?l, ?u]\<rparr>)"
    using r by (simp add: wrap_split_step_def ls isl_equality_alloc_def isl_inequality_alloc_def
        isl_basic_map_add_constraint_def isl_constraint_set_constant_si_def Let_def)
  moreover have "\<forall>c\<in>set [?e, ?l, ?u]. wf_constraint ls c" by (simp add: wf_constraint_def ls)
  moreover have "(\<forall>c\<in>set [?e, ?l, ?u]. constraint_holds c inp out ex) \<longleftrightarrow>
               - out ! (first + i) + out ! (first + wrap_len + i) +
                   wrap_size ! i * out ! (first + 2 * wrap_len + i) = 0 \<and>
               0 \<le> out ! (first + wrap_len + i) \<and>
               out ! (first + wrap_len + i) \<le> wrap_size ! i - 1"
    if "length inp = len" "length out = len + 2 * wrap_len" for inp out ex
    using that r by (auto simp add: constraint_holds_def dot_update)
  ultimately show ?thesis by (intro exI [of _ "[?e, ?l, ?u]"]) simp
qed

lemma project_constraint_holds:
  assumes "wf_constraint ls c" "first + n \<le> n_out ls"
    and "length out = n_out ls - n" "length ex = n"
  shows "constraint_holds (project_constraint first n c) inp out ex \<longleftrightarrow>
         constraint_holds c inp (take first out @ ex @ drop first out) []"
proof -
  from assms(1) have lc: "length (c_out c) = n_out ls" and d: "c_div c = []"
    by (simp_all add: wf_constraint_def)
  let ?a = "take first (c_out c)" and ?m = "take n (drop first (c_out c))"
    and ?z = "drop (first + n) (c_out c)"
  have split: "c_out c = ?a @ ?m @ ?z"
    by (metis append_take_drop_id drop_drop add.commute)
  have l1: "length ?a = length (take first out)" using lc assms(2,3) by simp
  have l2: "length ?m = length ex" using lc assms(2,4) by simp
  have "dot (c_out c) (take first out @ ex @ drop first out) =
        dot ?a (take first out) + (dot ?m ex + dot ?z (drop first out))"
    by (subst split) (simp only: dot_append [OF l1] dot_append [OF l2])
  moreover have "dot (?a @ ?z) out = dot ?a (take first out) + dot ?z (drop first out)"
    using dot_append [OF l1, of ?z "drop first out"] by simp
  ultimately show ?thesis
    by (simp add: constraint_holds_def project_constraint_def d Let_def algebra_simps)
qed

lemma wrap_Some:
  assumes "first + wrap_len \<le> len"
  shows "\<exists>cs. wrap len first wrap_len wrap_size =
           Some [\<lparr>bm_space = \<lparr>n_in = len, n_out = len + wrap_len\<rparr>, bm_n_div = wrap_len,
                  bm_constraints = map (project_constraint (first + 2 * wrap_len) wrap_len) cs\<rparr>] \<and>
           (\<forall>c\<in>set cs. wf_constraint \<lparr>n_in = len, n_out = len + 2 * wrap_len\<rparr> c) \<and>
           (\<forall>inp out. length inp = len \<and> length out = len + 2 * wrap_len \<longrightarrow>
              ((\<forall>c\<in>set cs. constraint_holds c inp out []) \<longleftrightarrow>
               wrap_relation len first wrap_len wrap_size inp out))"
proof -
  let ?ls = "\<lparr>n_in = len, n_out = len + 2 * wrap_len\<rparr>"
  let ?W = "\<lambda>inp out. length inp = len \<and> length out = len + 2 * wrap_len"
  let ?b0 = "\<lparr>bm_space = ?ls, bm_n_div = 0, bm_constraints = []\<rparr>"
  let ?P1 = "\<lambda>i inp out. out ! (if i < first + wrap_len then i else i + 2 * wrap_len) = inp ! i"
  let ?P2 = "\<lambda>i inp out. - out ! (first + i) + out ! (first + wrap_len + i) +
                   wrap_size ! i * out ! (first + 2 * wrap_len + i) = 0 \<and>
               0 \<le> out ! (first + wrap_len + i) \<and>
               out ! (first + wrap_len + i) \<le> wrap_size ! i - 1"
  have "\<exists>cs. fold (wrap_copy_step ?ls first wrap_len) [0..<len] (Some ?b0) =
           Some (?b0\<lparr>bm_constraints := bm_constraints ?b0 @ cs\<rparr>) \<and>
           (\<forall>c\<in>set cs. wf_constraint ?ls c) \<and>
           (\<forall>inp out ex. ?W inp out \<longrightarrow>
              ((\<forall>c\<in>set cs. constraint_holds c inp out ex) \<longleftrightarrow> (\<forall>i<len. ?P1 i inp out)))"
    by (rule fold_steps) (rule wrap_copy_step_Some, simp_all)
  then obtain cs1 where a1:
    "fold (wrap_copy_step ?ls first wrap_len) [0..<len] (Some ?b0) =
           Some (?b0\<lparr>bm_constraints := bm_constraints ?b0 @ cs1\<rparr>) \<and>
           (\<forall>c\<in>set cs1. wf_constraint ?ls c) \<and>
           (\<forall>inp out ex. ?W inp out \<longrightarrow>
              ((\<forall>c\<in>set cs1. constraint_holds c inp out ex) \<longleftrightarrow> (\<forall>i<len. ?P1 i inp out)))" ..
  let ?b1 = "\<lparr>bm_space = ?ls, bm_n_div = 0, bm_constraints = cs1\<rparr>"
  from a1 have f1: "fold (wrap_copy_step ?ls first wrap_len) [0..<len] (Some ?b0) = Some ?b1"
    by simp
  from a1 have w1: "\<forall>c\<in>set cs1. wf_constraint ?ls c"
    by (rule conjunct2 [THEN conjunct1])
  from a1 have s1: "\<forall>inp out ex. ?W inp out \<longrightarrow>
              ((\<forall>c\<in>set cs1. constraint_holds c inp out ex) \<longleftrightarrow> (\<forall>i<len. ?P1 i inp out))"
    by (rule conjunct2 [THEN conjunct2])
  have "\<exists>cs. fold (wrap_split_step ?ls first wrap_len wrap_size) [0..<wrap_len] (Some ?b1) =
           Some (?b1\<lparr>bm_constraints := bm_constraints ?b1 @ cs\<rparr>) \<and>
           (\<forall>c\<in>set cs. wf_constraint ?ls c) \<and>
           (\<forall>inp out ex. ?W inp out \<longrightarrow>
              ((\<forall>c\<in>set cs. constraint_holds c inp out ex) \<longleftrightarrow> (\<forall>i<wrap_len. ?P2 i inp out)))"
    by (rule fold_steps) (rule wrap_split_step_Some, simp_all add: assms)
  then obtain cs2 where a2:
    "fold (wrap_split_step ?ls first wrap_len wrap_size) [0..<wrap_len] (Some ?b1) =
           Some (?b1\<lparr>bm_constraints := bm_constraints ?b1 @ cs2\<rparr>) \<and>
           (\<forall>c\<in>set cs2. wf_constraint ?ls c) \<and>
           (\<forall>inp out ex. ?W inp out \<longrightarrow>
              ((\<forall>c\<in>set cs2. constraint_holds c inp out ex) \<longleftrightarrow> (\<forall>i<wrap_len. ?P2 i inp out)))" ..
  from a2 have f2: "fold (wrap_split_step ?ls first wrap_len wrap_size) [0..<wrap_len] (Some ?b1) =
           Some \<lparr>bm_space = ?ls, bm_n_div = 0, bm_constraints = cs1 @ cs2\<rparr>"
    by simp
  from a2 have w2: "\<forall>c\<in>set cs2. wf_constraint ?ls c"
    by (rule conjunct2 [THEN conjunct1])
  from a2 have s2: "\<forall>inp out ex. ?W inp out \<longrightarrow>
              ((\<forall>c\<in>set cs2. constraint_holds c inp out ex) \<longleftrightarrow> (\<forall>i<wrap_len. ?P2 i inp out))"
    by (rule conjunct2 [THEN conjunct2])
  have fit: "first + 2 * wrap_len + wrap_len \<le> len + 2 * wrap_len" using assms by simp
  have t: "wrap len first wrap_len wrap_size =
           Some [\<lparr>bm_space = \<lparr>n_in = len, n_out = len + wrap_len\<rparr>, bm_n_div = wrap_len,
                  bm_constraints = map (project_constraint (first + 2 * wrap_len) wrap_len) (cs1 @ cs2)\<rparr>]"
    using f1 f2 fit
    by (simp add: wrap_def isl_basic_map_universe_def isl_map_from_basic_map_def
        isl_basic_map_project_out_def project_constraint_def Let_def)
  have w: "\<forall>c\<in>set (cs1 @ cs2). wf_constraint ?ls c" using w1 w2 by auto
  have s: "\<forall>inp out. length inp = len \<and> length out = len + 2 * wrap_len \<longrightarrow>
              ((\<forall>c\<in>set (cs1 @ cs2). constraint_holds c inp out []) \<longleftrightarrow>
               wrap_relation len first wrap_len wrap_size inp out)"
  proof (intro allI impI)
    fix inp out :: "int list"
    assume that: "length inp = len \<and> length out = len + 2 * wrap_len"
    from s1 s2 that have A: "(\<forall>c\<in>set cs1. constraint_holds c inp out []) \<longleftrightarrow> (\<forall>i<len. ?P1 i inp out)"
      and B: "(\<forall>c\<in>set cs2. constraint_holds c inp out []) \<longleftrightarrow> (\<forall>i<wrap_len. ?P2 i inp out)"
      by blast+
    have C: "(\<forall>c\<in>set (cs1 @ cs2). constraint_holds c inp out []) \<longleftrightarrow>
      (\<forall>c\<in>set cs1. constraint_holds c inp out []) \<and> (\<forall>c\<in>set cs2. constraint_holds c inp out [])"
      by auto
    show "(\<forall>c\<in>set (cs1 @ cs2). constraint_holds c inp out []) \<longleftrightarrow>
               wrap_relation len first wrap_len wrap_size inp out"
      unfolding C A B using that by (simp add: wrap_relation_def)
  qed
  from t w s show ?thesis by (intro exI [of _ "cs1 @ cs2"] conjI)
qed

lemma in_map_wrap:
  assumes "first + wrap_len \<le> len"
  shows "\<exists>m. wrap len first wrap_len wrap_size = Some m \<and>
             (\<forall>inp out. in_map m inp out \<longleftrightarrow>
                length out = len + wrap_len \<and>
                (\<exists>ex. length ex = wrap_len \<and>
                   wrap_relation len first wrap_len wrap_size inp
                     (take (first + 2 * wrap_len) out @ ex @ drop (first + 2 * wrap_len) out)))"
proof -
  let ?ls = "\<lparr>n_in = len, n_out = len + 2 * wrap_len\<rparr>"
  let ?f = "first + 2 * wrap_len"
  from wrap_Some [OF assms, of wrap_size] obtain cs where
    t: "wrap len first wrap_len wrap_size =
           Some [\<lparr>bm_space = \<lparr>n_in = len, n_out = len + wrap_len\<rparr>, bm_n_div = wrap_len,
                  bm_constraints = map (project_constraint ?f wrap_len) cs\<rparr>]" and
    w: "\<forall>c\<in>set cs. wf_constraint ?ls c" and
    s: "\<forall>inp out. length inp = len \<and> length out = len + 2 * wrap_len \<longrightarrow>
              ((\<forall>c\<in>set cs. constraint_holds c inp out []) \<longleftrightarrow>
               wrap_relation len first wrap_len wrap_size inp out)"
    by blast
  let ?m = "[\<lparr>bm_space = \<lparr>n_in = len, n_out = len + wrap_len\<rparr>, bm_n_div = wrap_len,
                  bm_constraints = map (project_constraint ?f wrap_len) cs\<rparr>]"
  have "in_map ?m inp out \<longleftrightarrow>
                length out = len + wrap_len \<and>
                (\<exists>ex. length ex = wrap_len \<and>
                   wrap_relation len first wrap_len wrap_size inp
                     (take ?f out @ ex @ drop ?f out))" for inp out
  proof (cases "length inp = len \<and> length out = len + wrap_len")
    case True
    have fit: "?f + wrap_len \<le> n_out ?ls" using assms by simp
    have lo: "length out = n_out ?ls - wrap_len" using True by simp
    have key: "(\<forall>c\<in>set cs. constraint_holds (project_constraint ?f wrap_len c) inp out ex) \<longleftrightarrow>
          wrap_relation len first wrap_len wrap_size inp (take ?f out @ ex @ drop ?f out)"
      if ex: "length ex = wrap_len" for ex
    proof -
      have "(\<forall>c\<in>set cs. constraint_holds (project_constraint ?f wrap_len c) inp out ex) \<longleftrightarrow>
            (\<forall>c\<in>set cs. constraint_holds c inp (take ?f out @ ex @ drop ?f out) [])"
        using project_constraint_holds [OF _ fit lo ex] w by blast
      moreover have "length (take ?f out @ ex @ drop ?f out) = len + 2 * wrap_len"
        using True ex assms by simp
      ultimately show ?thesis using s True by simp
    qed
    have "in_map ?m inp out \<longleftrightarrow>
          (\<exists>ex. length ex = wrap_len \<and>
             (\<forall>c\<in>set cs. constraint_holds (project_constraint ?f wrap_len c) inp out ex))"
      using True by (simp add: in_map_def in_basic_map_def)
    also have "\<dots> \<longleftrightarrow> (\<exists>ex. length ex = wrap_len \<and>
          wrap_relation len first wrap_len wrap_size inp (take ?f out @ ex @ drop ?f out))"
      using key by blast
    finally show ?thesis using True by simp
  next
    case False
    then show ?thesis
      by (auto simp add: in_map_def in_basic_map_def wrap_relation_def)
  qed
  with t show ?thesis by simp
qed

lemma wrap_point_nth:
  assumes "k < len + 2 * wlen"
  shows "wrap_point len first wlen wrap_size inp ! k =
         (if k < first + wlen then inp ! k
          else if k < first + 2 * wlen
               then inp ! (k - wlen) mod wrap_size ! (k - wlen - first)
          else if k < first + 3 * wlen
               then inp ! (k - 2 * wlen) div wrap_size ! (k - 2 * wlen - first)
          else inp ! (k - 2 * wlen))"
  using assms by (simp add: wrap_point_def del: upt_Suc)

lemma wrap_relation_point:
  assumes pos: "\<forall>i<wlen. 0 < wrap_size ! i"
    and fit: "first + wlen \<le> len" and len: "length inp = len"
  shows "wrap_relation len first wlen wrap_size inp (wrap_point len first wlen wrap_size inp)"
proof -
  let ?out = "wrap_point len first wlen wrap_size inp"
  have lo: "length ?out = len + 2 * wlen" by (simp add: wrap_point_def)
  have copy: "?out ! (if i < first + wlen then i else i + 2 * wlen) = inp ! i" if "i < len" for i
  proof (cases "i < first + wlen")
    case True
    with that show ?thesis by (simp add: wrap_point_nth)
  next
    case False
    with that have "i + 2 * wlen < len + 2 * wlen" "\<not> i + 2 * wlen < first + 3 * wlen" by simp_all
    with False show ?thesis by (simp add: wrap_point_nth)
  qed
  have split: "- ?out ! (first + i) + ?out ! (first + wlen + i) +
                   wrap_size ! i * ?out ! (first + 2 * wlen + i) = 0 \<and>
                0 \<le> ?out ! (first + wlen + i) \<and> ?out ! (first + wlen + i) \<le> wrap_size ! i - 1"
    if "i < wlen" for i
  proof -
    from pos that have p: "0 < wrap_size ! i" by simp
    from that fit have k: "first + i < len + 2 * wlen" "first + wlen + i < len + 2 * wlen"
      "first + 2 * wlen + i < len + 2 * wlen"
      by simp_all
    have a: "?out ! (first + i) = inp ! (first + i)"
      using that k(1) by (simp add: wrap_point_nth)
    have r: "?out ! (first + wlen + i) = inp ! (first + i) mod wrap_size ! i"
      using that k(2) by (simp add: wrap_point_nth)
    have q: "?out ! (first + 2 * wlen + i) = inp ! (first + i) div wrap_size ! i"
      using that k(3) by (simp add: wrap_point_nth)
    from p have "0 \<le> inp ! (first + i) mod wrap_size ! i"
      "inp ! (first + i) mod wrap_size ! i < wrap_size ! i"
      by simp_all
    moreover have "wrap_size ! i * (inp ! (first + i) div wrap_size ! i) +
        inp ! (first + i) mod wrap_size ! i = inp ! (first + i)"
      by (rule mult_div_mod_eq)
    ultimately show ?thesis unfolding a r q by linarith
  qed
  from len lo copy split show ?thesis
    unfolding wrap_relation_def by blast
qed

lemma wrap_relation_coords:
  assumes pos: "\<forall>i<wlen. 0 < wrap_size ! i"
    and rel: "wrap_relation len first wlen wrap_size inp full"
    and fit: "first + wlen \<le> len" and i: "i < wlen"
  shows "full ! (first + i) = inp ! (first + i) \<and>
         full ! (first + wlen + i) = inp ! (first + i) mod wrap_size ! i"
proof -
  from rel have copy: "\<And>j. j < len \<Longrightarrow>
      full ! (if j < first + wlen then j else j + 2 * wlen) = inp ! j"
    by (simp add: wrap_relation_def)
  from rel i have split: "- full ! (first + i) + full ! (first + wlen + i) +
                   wrap_size ! i * full ! (first + 2 * wlen + i) = 0"
    "0 \<le> full ! (first + wlen + i)" "full ! (first + wlen + i) \<le> wrap_size ! i - 1"
    by (simp_all add: wrap_relation_def)
  from i fit have "first + i < len" "first + i < first + wlen" by simp_all
  with copy [of "first + i"] have a: "full ! (first + i) = inp ! (first + i)" by simp
  from split(1) a have "inp ! (first + i) =
      wrap_size ! i * full ! (first + 2 * wlen + i) + full ! (first + wlen + i)"
    by linarith
  moreover from split(3) have "full ! (first + wlen + i) < wrap_size ! i" by simp
  ultimately have "inp ! (first + i) mod wrap_size ! i = full ! (first + wlen + i)"
    using split(2) by (intro int_mod_pos_eq)
  with a show ?thesis by simp
qed

lemma three_way_split: "xs = take f xs @ take n (drop f xs) @ drop (f + n) xs"
  by (metis append_take_drop_id drop_drop add.commute)

subsection \<open>C7\<close>

text \<open>
  C7: for a size vector with positive entries (and a range \<open>first .. first + n\<close> inside
  the \<open>len\<close> input dimensions), the maps built by \<open>tile\<close> and by \<open>wrap\<close> have the same
  domain, namely every point of the input space: an iteration is covered by the one
  exactly when it is covered by the other.  They differ in the coordinates an
  iteration is given: \<open>wrap\<close> keeps the coordinate and adds its remainder modulo the
  size, where \<open>tile\<close> gives the quotient and the remainder.
\<close>

theorem C7_tile_wrap_same_domain:
  assumes "\<forall>i<n. 0 < sizes ! i" and "first + n \<le> len"
  shows "\<exists>mt mw. tile len first n sizes = Some mt \<and> wrap len first n sizes = Some mw \<and>
           map_domain mt = map_domain mw \<and>
           map_domain mw = {inp. length inp = len} \<and>
           (\<forall>inp out. in_map mw inp out \<longrightarrow>
              (\<forall>i<n. out ! (first + i) = inp ! (first + i) \<and>
                     out ! (first + n + i) = inp ! (first + i) mod sizes ! i)) \<and>
           (\<forall>inp out. in_map mt inp out \<longrightarrow>
              (\<forall>i<n. out ! (first + i) = inp ! (first + i) div sizes ! i \<and>
                     out ! (first + i + n) = inp ! (first + i) mod sizes ! i))"
proof -
  let ?f = "first + 2 * n"
  from in_map_tile [OF assms(2), of sizes] obtain mt where
    t: "tile len first n sizes = Some mt" and
    rt: "\<And>inp out. in_map mt inp out \<longleftrightarrow> tile_relation len first n sizes inp out"
    by blast
  from in_map_wrap [OF assms(2), of sizes] obtain mw where
    w: "wrap len first n sizes = Some mw" and
    rw: "\<And>inp out. in_map mw inp out \<longleftrightarrow>
                length out = len + n \<and>
                (\<exists>ex. length ex = n \<and>
                   wrap_relation len first n sizes inp (take ?f out @ ex @ drop ?f out))"
    by blast
  have dt: "map_domain mt = {inp. length inp = len}"
  proof (intro set_eqI iffI)
    fix inp :: "int list"
    assume "inp \<in> map_domain mt"
    then show "inp \<in> {inp. length inp = len}"
      by (auto simp add: map_domain_def rt tile_relation_def)
  next
    fix inp :: "int list"
    assume "inp \<in> {inp. length inp = len}"
    then have "length inp = len" by simp
    from tile_relation_point [OF assms this] show "inp \<in> map_domain mt"
      by (auto simp add: map_domain_def rt)
  qed
  have dw: "map_domain mw = {inp. length inp = len}"
  proof (intro set_eqI iffI)
    fix inp :: "int list"
    assume "inp \<in> map_domain mw"
    then show "inp \<in> {inp. length inp = len}"
      by (auto simp add: map_domain_def rw wrap_relation_def)
  next
    fix inp :: "int list"
    assume "inp \<in> {inp. length inp = len}"
    then have l: "length inp = len" by simp
    let ?p = "wrap_point len first n sizes inp"
    let ?out = "take ?f ?p @ drop (?f + n) ?p"
    let ?ex = "take n (drop ?f ?p)"
    have lp: "length ?p = len + 2 * n" by (simp add: wrap_point_def)
    have lo: "length ?out = len + n" using lp assms(2) by simp
    have le: "length ?ex = n" using lp assms(2) by simp
    have tk: "take ?f ?out = take ?f ?p" using lp assms(2) by simp
    have dr: "drop ?f ?out = drop (?f + n) ?p" using lp assms(2) by simp
    have "take ?f ?out @ ?ex @ drop ?f ?out = ?p"
      unfolding tk dr by (rule three_way_split [symmetric])
    with wrap_relation_point [OF assms l]
    have "wrap_relation len first n sizes inp (take ?f ?out @ ?ex @ drop ?f ?out)" by simp
    with lo le have "in_map mw inp ?out" unfolding rw by blast
    then show "inp \<in> map_domain mw" by (auto simp add: map_domain_def)
  qed
  have cw: "out ! (first + i) = inp ! (first + i) \<and>
            out ! (first + n + i) = inp ! (first + i) mod sizes ! i"
    if m: "in_map mw inp out" and i: "i < n" for inp out i
  proof -
    from m rw obtain ex where lo: "length out = len + n" and le: "length ex = n"
      and rel: "wrap_relation len first n sizes inp (take ?f out @ ex @ drop ?f out)"
      by blast
    from i assms(2) lo have b: "first + i < length (take ?f out)" "first + n + i < length (take ?f out)"
      by simp_all
    then have e: "(take ?f out @ ex @ drop ?f out) ! (first + i) = out ! (first + i)"
      "(take ?f out @ ex @ drop ?f out) ! (first + n + i) = out ! (first + n + i)"
      by (simp_all add: nth_append)
    from wrap_relation_coords [OF assms(1) rel assms(2) i] show ?thesis
      unfolding e .
  qed
  have ct: "out ! (first + i) = inp ! (first + i) div sizes ! i \<and>
            out ! (first + i + n) = inp ! (first + i) mod sizes ! i"
    if m: "in_map mt inp out" and i: "i < n" for inp out i
  proof -
    from m rt have rel: "tile_relation len first n sizes inp out" by simp
    from tile_relation_unique [OF assms rel] have o: "out = tile_point len first n sizes inp" .
    from i assms(2) have k: "first + i < len + n" "first + i + n < len + n" by simp_all
    show ?thesis unfolding o using i k by (simp add: tile_point_nth)
  qed
  have dd: "map_domain mt = map_domain mw" using dt dw by simp
  show ?thesis
  proof (rule exI [of _ mt], rule exI [of _ mw], intro conjI allI impI)
    show "tile len first n sizes = Some mt" by (rule t)
    show "wrap len first n sizes = Some mw" by (rule w)
    show "map_domain mt = map_domain mw" by (rule dd)
    show "map_domain mw = {inp. length inp = len}" by (rule dw)
  next
    fix inp out i assume "in_map mw inp out" "i < n"
    then show "out ! (first + i) = inp ! (first + i)"
      and "out ! (first + n + i) = inp ! (first + i) mod sizes ! i"
      using cw by blast+
  next
    fix inp out i assume "in_map mt inp out" "i < n"
    then show "out ! (first + i) = inp ! (first + i) div sizes ! i"
      and "out ! (first + i + n) = inp ! (first + i) mod sizes ! i"
      using ct by blast+
  qed
qed

theorem C7_tile_wrap_same_domain_witness:
  "0 < [4 :: int] ! 0 \<and> 1 + 1 \<le> (3 :: nat) \<and>
   (\<exists>mt mw. tile 3 1 1 [4] = Some mt \<and> wrap 3 1 1 [4] = Some mw \<and>
        map_domain mt = map_domain mw \<and> [7, 13, - 5] \<in> map_domain mw)"
proof -
  have h1: "\<forall>i<1. 0 < [4 :: int] ! i" by simp
  have h2: "1 + 1 \<le> (3 :: nat)" by simp
  from C7_tile_wrap_same_domain [OF h1 h2]
  have "\<exists>mt mw. tile 3 1 1 [4] = Some mt \<and> wrap 3 1 1 [4] = Some mw \<and>
           map_domain mt = map_domain mw \<and> map_domain mw = {inp. length inp = 3}"
    by (elim exE conjE) (intro exI conjI, assumption+)
  then obtain mt mw where a: "tile 3 1 1 [4] = Some mt" "wrap 3 1 1 [4] = Some mw"
    "map_domain mt = map_domain mw" and d: "map_domain mw = {inp. length inp = 3}"
    by (elim exE conjE)
  have "[7, 13, - 5] \<in> map_domain mw" unfolding d by simp
  with a have "\<exists>mt mw. tile 3 1 1 [4] = Some mt \<and> wrap 3 1 1 [4] = Some mw \<and>
        map_domain mt = map_domain mw \<and> [7, 13, - 5] \<in> map_domain mw"
    by (intro exI [of _ mt] exI [of _ mw] conjI)
  with h2 show ?thesis by simp
qed

section \<open>Properties of the interchange for unrolling\<close>

lemma unroll_flags_unroll_gen:
  "unroll_flags (unroll_gen\<lparr>first_unroll := - 1\<rparr>) unroll_pieces = [0, 0, 1, 0, 0, 0]"
  by (simp add: unroll_flags_def unroll_gen_def unroll_pieces_def check_unroll_def
      isl_aff_involves_dims_def eval_nat_numeral)

lemma interchange_unroll_gen:
  "interchange_for_unroll unroll_gen unroll_pieces unroll_sched =
     (remove_private_tiles (unroll_gen\<lparr>first_unroll := - 1\<rparr>), Some unroll_sched)"
proof -
  have k: "shared_len unroll_gen = 2" "thread_tiled_len unroll_gen = 6"
    "n_parallel (gen_kernel unroll_gen) = 1" "n_block (gen_kernel unroll_gen) = 1"
    "any_force_private (gen_kernel unroll_gen)"
    by (simp_all add: unroll_gen_def)
  have r: "[nat 2..<nat (2 + 1 + 1)] = [2, 3]" "[nat (2 + 1 + 1)..<nat 6] = [4, 5]"
    by (simp_all add: eval_nat_numeral upt_rec)
  show ?thesis
    by (simp add: interchange_for_unroll_def Let_def k r unroll_flags_unroll_gen eval_nat_numeral)
qed

lemma unroll_flags_first_unroll [simp]:
  "unroll_flags (gen\<lparr>first_unroll := x\<rparr>) access_pieces = unroll_flags gen access_pieces"
  by (simp add: unroll_flags_def)

lemma remove_private_tiles_arrays:
  "list_all2 (\<lambda>a a'. if force_private a then a' = a
                      else a' = a\<lparr>groups := map (\<lambda>g. g\<lparr>private_tile := None\<rparr>) (groups a)\<rparr>)
     (array (gen_kernel gen)) (array (gen_kernel (remove_private_tiles gen)))"
  by (simp add: remove_private_tiles_def list_all2_map2 list_all2_same)

lemma remove_private_tiles_none:
  assumes "a' \<in> set (array (gen_kernel (remove_private_tiles gen)))" "\<not> force_private a'"
    and "g \<in> set (groups a')"
  shows "private_tile g = None"
  using assms by (auto simp add: remove_private_tiles_def split: if_splits)

subsection \<open>C9\<close>

text \<open>
  C9 as stated has every group of the kernel lose its private tile.
  \<open>remove_private_tiles\<close> skips the arrays marked \<open>force_private\<close>: in \<open>unroll_gen\<close>
  dimension 2, inside the window, has to be unrolled and the kernel has a
  \<open>force_private\<close> array, and after \<open>interchange_for_unroll\<close> the group of that array
  still holds its private tile.
\<close>

theorem C9_force_private_group_keeps_tile_counterexample:
  "shared_len unroll_gen \<le> 2 \<and>
   2 < shared_len unroll_gen + n_parallel (gen_kernel unroll_gen) + n_block (gen_kernel unroll_gen) \<and>
   unroll_flags unroll_gen unroll_pieces ! 2 \<noteq> 0 \<and>
   any_force_private (gen_kernel unroll_gen) \<and>
   force_private (array (gen_kernel unroll_gen) ! 0) \<and>
   private_tile (groups (array (gen_kernel
       (fst (interchange_for_unroll unroll_gen unroll_pieces unroll_sched))) ! 0) ! 0) = Some 1"
proof -
  have "unroll_flags unroll_gen unroll_pieces = [0, 0, 1, 0, 0, 0]"
    using unroll_flags_unroll_gen by simp
  then have "unroll_flags unroll_gen unroll_pieces ! 2 \<noteq> 0" by simp
  moreover have "private_tile (groups (array (gen_kernel
       (fst (interchange_for_unroll unroll_gen unroll_pieces unroll_sched))) ! 0) ! 0) = Some 1"
    by (simp add: interchange_unroll_gen) (simp add: remove_private_tiles_def unroll_gen_def)
  ultimately show ?thesis by (simp add: unroll_gen_def)
qed

text \<open>
  C9 (amended): whenever \<open>interchange_for_unroll\<close> finds that some loop dimension
  inside the thread tile and parallel window (from \<open>shared_len\<close> up to
  \<open>shared_len + n_parallel + n_block\<close>) has to be unrolled for the private accesses,
  that no dimension beyond the window has to be, and the kernel has a force-private
  array (\<open>any_force_private\<close>), private tiling is abandoned for the arrays that are not
  marked \<open>force_private\<close>: every group of such an array has its private tile removed
  and is otherwise unchanged, the arrays marked \<open>force_private\<close> are unchanged, and the
  schedule is returned as it is, without permutation, with \<open>first_unroll = -1\<close>.
\<close>

theorem C9_private_tiling_abandoned:
  assumes "\<exists>i. nat (shared_len gen) \<le> i \<and>
               i < nat (shared_len gen + n_parallel (gen_kernel gen) + n_block (gen_kernel gen)) \<and>
               unroll_flags gen access_pieces ! i \<noteq> 0"
    and "\<forall>i. nat (shared_len gen + n_parallel (gen_kernel gen) + n_block (gen_kernel gen)) \<le> i \<and>
               i < nat (thread_tiled_len gen) \<longrightarrow>
               unroll_flags gen access_pieces ! i = 0"
    and "any_force_private (gen_kernel gen)"
  shows "snd (interchange_for_unroll gen access_pieces sched) = Some sched \<and>
         first_unroll (fst (interchange_for_unroll gen access_pieces sched)) = - 1 \<and>
         list_all2 (\<lambda>a a'. if force_private a then a' = a
                      else a' = a\<lparr>groups := map (\<lambda>g. g\<lparr>private_tile := None\<rparr>) (groups a)\<rparr>)
           (array (gen_kernel gen))
           (array (gen_kernel (fst (interchange_for_unroll gen access_pieces sched)))) \<and>
         (\<forall>a'\<in>set (array (gen_kernel (fst (interchange_for_unroll gen access_pieces sched)))).
            \<not> force_private a' \<longrightarrow> (\<forall>g\<in>set (groups a'). private_tile g = None))"
proof -
  let ?len = "shared_len gen + n_parallel (gen_kernel gen) + n_block (gen_kernel gen)"
  let ?g = "gen\<lparr>first_unroll := - 1\<rparr>"
  have hit: "list_ex (\<lambda>i. unroll_flags gen access_pieces ! i \<noteq> 0) [nat (shared_len gen)..<nat ?len]"
    using assms(1) by (auto simp add: list_ex_iff)
  have miss: "\<not> list_ex (\<lambda>i. unroll_flags gen access_pieces ! i \<noteq> 0)
                   [nat ?len..<nat (thread_tiled_len gen)]"
    using assms(2) by (auto simp add: list_ex_iff)
  have r: "interchange_for_unroll gen access_pieces sched = (remove_private_tiles ?g, Some sched)"
    using hit miss assms(3) by (simp add: interchange_for_unroll_def Let_def)
  have k: "gen_kernel ?g = gen_kernel gen" by simp
  have f: "first_unroll (remove_private_tiles ?g) = - 1"
    by (simp add: remove_private_tiles_def)
  have l: "list_all2 (\<lambda>a a'. if force_private a then a' = a
                      else a' = a\<lparr>groups := map (\<lambda>g. g\<lparr>private_tile := None\<rparr>) (groups a)\<rparr>)
           (array (gen_kernel gen)) (array (gen_kernel (remove_private_tiles ?g)))"
    using remove_private_tiles_arrays [of ?g] by (simp only: k)
  have n: "\<forall>a'\<in>set (array (gen_kernel (remove_private_tiles ?g))).
            \<not> force_private a' \<longrightarrow> (\<forall>g\<in>set (groups a'). private_tile g = None)"
    using remove_private_tiles_none [of _ ?g] by blast
  from f l n show ?thesis unfolding r by simp
qed

theorem C9_private_tiling_abandoned_witness:
  "nat (shared_len unroll_gen) \<le> 2 \<and>
   2 < nat (shared_len unroll_gen + n_parallel (gen_kernel unroll_gen) +
            n_block (gen_kernel unroll_gen)) \<and>
   unroll_flags unroll_gen unroll_pieces ! 2 \<noteq> 0 \<and>
   any_force_private (gen_kernel unroll_gen) \<and>
   snd (interchange_for_unroll unroll_gen unroll_pieces unroll_sched) = Some unroll_sched \<and>
   first_unroll (fst (interchange_for_unroll unroll_gen unroll_pieces unroll_sched)) = - 1"
proof -
  have fl: "unroll_flags unroll_gen unroll_pieces = [0, 0, 1, 0, 0, 0]"
    using unroll_flags_unroll_gen by simp
  have w: "nat (shared_len unroll_gen) \<le> 2"
    "2 < nat (shared_len unroll_gen + n_parallel (gen_kernel unroll_gen) +
            n_block (gen_kernel unroll_gen))"
    "unroll_flags unroll_gen unroll_pieces ! 2 \<noteq> 0"
    by (simp_all add: fl) (simp_all add: unroll_gen_def)
  then have h1: "\<exists>i. nat (shared_len unroll_gen) \<le> i \<and>
               i < nat (shared_len unroll_gen + n_parallel (gen_kernel unroll_gen) +
                        n_block (gen_kernel unroll_gen)) \<and>
               unroll_flags unroll_gen unroll_pieces ! i \<noteq> 0"
    by (intro exI [of _ 2]) simp
  have h2: "\<forall>i. nat (shared_len unroll_gen + n_parallel (gen_kernel unroll_gen) +
                     n_block (gen_kernel unroll_gen)) \<le> i \<and>
               i < nat (thread_tiled_len unroll_gen) \<longrightarrow>
               unroll_flags unroll_gen unroll_pieces ! i = 0"
  proof (intro allI impI)
    fix i
    assume "nat (shared_len unroll_gen + n_parallel (gen_kernel unroll_gen) +
                     n_block (gen_kernel unroll_gen)) \<le> i \<and>
               i < nat (thread_tiled_len unroll_gen)"
    then have "i = 4 \<or> i = 5" by (auto simp add: unroll_gen_def)
    then show "unroll_flags unroll_gen unroll_pieces ! i = 0" by (auto simp add: fl)
  qed
  have h3: "any_force_private (gen_kernel unroll_gen)" by (simp add: unroll_gen_def)
  from C9_private_tiling_abandoned [OF h1 h2 h3, of unroll_sched]
  have "snd (interchange_for_unroll unroll_gen unroll_pieces unroll_sched) = Some unroll_sched"
    "first_unroll (fst (interchange_for_unroll unroll_gen unroll_pieces unroll_sched)) = - 1"
    by (rule conjunct1, rule conjunct2 [THEN conjunct1])
  with w h3 show ?thesis by (intro conjI)
qed

section \<open>Properties of the effective grid size\<close>

lemma extract_grid_size_nth:
  assumes "insts \<noteq> {}" "i < nat (n_grid kern)"
  shows "extract_grid_size kern block_filter insts ! i =
         Some (Max ((\<lambda>x. block_filter x ! i) ` insts) + 1)"
proof -
  have "(\<lambda>p. p ! i) ` block_filter ` insts = (\<lambda>x. block_filter x ! i) ` insts"
    by (simp add: image_image)
  with assms show ?thesis
    by (simp add: extract_grid_size_def extract_size_def isl_set_dim_max_def del: upt_Suc)
qed

lemma set_schedule_modulo_nth:
  "i < n \<Longrightarrow> set_schedule_modulo n ps sizes x ! i = ps x ! i mod sizes ! i"
  by (simp add: set_schedule_modulo_def del: upt_Suc)

subsection \<open>C6\<close>

text \<open>
  C6 as stated gives grid size 1 in every dimension for a domain restricted to a
  single point, and says that the configured size is never returned.  For the kernel
  of \<open>private_gen\<close> (one grid dimension, configured size 32768) and a band whose
  partial schedule is the iteration itself, the single iteration 40000 has block
  identifier 7232 and the grid size is 7233; and the single iteration 32767 has the
  last block identifier, so that the grid size is the configured size.
\<close>

theorem C6_single_point_counterexample:
  "extract_grid_size (gen_kernel private_gen)
     (set_schedule_modulo 1 identity_schedule (grid_dim (gen_kernel private_gen))) {40000}
     = [Some 7233] \<and>
   extract_grid_size (gen_kernel private_gen)
     (set_schedule_modulo 1 identity_schedule (grid_dim (gen_kernel private_gen))) {32767}
     = [Some (grid_dim (gen_kernel private_gen) ! 0)]"
  by (simp add: extract_grid_size_def extract_size_def isl_set_dim_max_def
      set_schedule_modulo_def identity_schedule_def private_gen_def)

text \<open>
  C6 (amended): for a non-empty domain and a block filter that equates the
  block identifiers to the partial schedule modulo positive sizes,
  \<open>extract_grid_size\<close> returns in each of the \<open>n_grid\<close> dimensions one plus the
  maximal block identifier of an instance of the domain.  That is the smallest integer
  greater than every block identifier in use, it is at least 1, and it is at most the
  size used by the filter (the configured or default grid size), which it equals only
  when the last block identifier is in use.  For a domain restricted to a single point
  it is one plus the block identifier of that point.
\<close>

theorem C6_effective_grid_size:
  assumes "insts \<noteq> {}"
    and "\<forall>k<nat (n_grid kern). 0 < sizes ! k"
  shows "length (extract_grid_size kern
                   (set_schedule_modulo (nat (n_grid kern)) ps sizes) insts) = nat (n_grid kern) \<and>
         (\<forall>i<nat (n_grid kern).
            \<exists>g. extract_grid_size kern
                   (set_schedule_modulo (nat (n_grid kern)) ps sizes) insts ! i = Some g \<and>
                g = 1 + Max ((\<lambda>x. ps x ! i mod sizes ! i) ` insts) \<and>
                1 \<le> g \<and>
                (\<forall>x\<in>insts. ps x ! i mod sizes ! i < g) \<and>
                (\<forall>g'. (\<forall>x\<in>insts. ps x ! i mod sizes ! i < g') \<longrightarrow> g \<le> g') \<and>
                g \<le> sizes ! i \<and>
                (g = sizes ! i \<longleftrightarrow> (\<exists>x\<in>insts. ps x ! i mod sizes ! i = sizes ! i - 1))) \<and>
         (\<forall>x. \<forall>i<nat (n_grid kern).
            extract_grid_size kern (set_schedule_modulo (nat (n_grid kern)) ps sizes) {x} ! i =
              Some (1 + ps x ! i mod sizes ! i))"
proof (intro conjI allI impI)
  let ?n = "nat (n_grid kern)"
  let ?f = "set_schedule_modulo ?n ps sizes"
  show "length (extract_grid_size kern ?f insts) = ?n"
    by (simp add: extract_grid_size_def extract_size_def)
  {
    fix i assume i: "i < ?n"
    let ?ids = "(\<lambda>x. ps x ! i mod sizes ! i) ` insts"
    let ?g = "1 + Max ?ids"
    from assms(2) i have p: "0 < sizes ! i" by simp
    have "?ids \<subseteq> {0..<sizes ! i}" using p by auto
    then have fin: "finite ?ids" by (rule finite_subset) simp
    have ne: "?ids \<noteq> {}" using assms(1) by simp
    have same: "(\<lambda>x. ?f x ! i) ` insts = ?ids"
      using i by (simp add: set_schedule_modulo_nth)
    have v: "extract_grid_size kern ?f insts ! i = Some ?g"
      using extract_grid_size_nth [OF assms(1) i, of ?f] same by simp
    have mem: "Max ?ids \<in> ?ids" using fin ne by (rule Max_in)
    then obtain y where y: "y \<in> insts" "Max ?ids = ps y ! i mod sizes ! i" by auto
    have lo: "0 \<le> Max ?ids" using y(2) p by simp
    have hi: "Max ?ids < sizes ! i" using y(2) p by simp
    have ub: "\<forall>x\<in>insts. ps x ! i mod sizes ! i < ?g"
    proof
      fix x assume "x \<in> insts"
      then have "ps x ! i mod sizes ! i \<le> Max ?ids" using fin by (intro Max_ge) simp_all
      then show "ps x ! i mod sizes ! i < ?g" by simp
    qed
    have least: "\<forall>g'. (\<forall>x\<in>insts. ps x ! i mod sizes ! i < g') \<longrightarrow> ?g \<le> g'"
    proof (intro allI impI)
      fix g' assume "\<forall>x\<in>insts. ps x ! i mod sizes ! i < g'"
      with y have "Max ?ids < g'" by simp
      then show "?g \<le> g'" by simp
    qed
    have top: "?g = sizes ! i \<longleftrightarrow> (\<exists>x\<in>insts. ps x ! i mod sizes ! i = sizes ! i - 1)"
    proof
      assume "?g = sizes ! i"
      then have "ps y ! i mod sizes ! i = sizes ! i - 1" using y(2) by simp
      with y(1) show "\<exists>x\<in>insts. ps x ! i mod sizes ! i = sizes ! i - 1" by blast
    next
      assume "\<exists>x\<in>insts. ps x ! i mod sizes ! i = sizes ! i - 1"
      then obtain x where x: "x \<in> insts" "ps x ! i mod sizes ! i = sizes ! i - 1" by blast
      from x(1) have "ps x ! i mod sizes ! i \<in> ?ids" by (rule imageI)
      then have "ps x ! i mod sizes ! i \<le> Max ?ids" using fin by (intro Max_ge)
      then have "sizes ! i - 1 \<le> Max ?ids" using x(2) by simp
      with hi show "?g = sizes ! i" by simp
    qed
    from v lo hi ub least top
    show "\<exists>g. extract_grid_size kern ?f insts ! i = Some g \<and>
                g = 1 + Max ?ids \<and> 1 \<le> g \<and>
                (\<forall>x\<in>insts. ps x ! i mod sizes ! i < g) \<and>
                (\<forall>g'. (\<forall>x\<in>insts. ps x ! i mod sizes ! i < g') \<longrightarrow> g \<le> g') \<and>
                g \<le> sizes ! i \<and>
                (g = sizes ! i \<longleftrightarrow> (\<exists>x\<in>insts. ps x ! i mod sizes ! i = sizes ! i - 1))"
      by (intro exI [of _ ?g]) simp
  }
  {
    fix x i assume i: "i < ?n"
    have "extract_grid_size kern ?f {x} ! i = Some (Max ((\<lambda>x. ?f x ! i) ` {x}) + 1)"
      by (rule extract_grid_size_nth) (simp_all add: i)
    then show "extract_grid_size kern ?f {x} ! i = Some (1 + ps x ! i mod sizes ! i)"
      using i by (simp add: set_schedule_modulo_nth)
  }
qed

theorem C6_effective_grid_size_witness:
  "{3, 70000, 40000 :: int} \<noteq> {} \<and>
   0 < grid_dim (gen_kernel private_gen) ! 0 \<and>
   extract_grid_size (gen_kernel private_gen)
     (set_schedule_modulo (nat (n_grid (gen_kernel private_gen))) identity_schedule
        (grid_dim (gen_kernel private_gen))) {3, 70000, 40000} ! 0 = Some 7233 \<and>
   extract_grid_size (gen_kernel private_gen)
     (set_schedule_modulo (nat (n_grid (gen_kernel private_gen))) identity_schedule
        (grid_dim (gen_kernel private_gen))) {40000} ! 0 = Some 7233"
proof -
  let ?k = "gen_kernel private_gen"
  have n: "nat (n_grid ?k) = 1" by (simp add: private_gen_def)
  have h2: "{3, 70000, 40000 :: int} \<noteq> {}" by simp
  have p: "0 < grid_dim ?k ! 0" by (simp add: private_gen_def)
  then have h3: "\<forall>k<nat (n_grid ?k). 0 < grid_dim ?k ! k" by (simp add: n)
  note t = C6_effective_grid_size [OF h2 h3, of identity_schedule]
  from t have "\<forall>i<nat (n_grid ?k).
            \<exists>g. extract_grid_size ?k
                   (set_schedule_modulo (nat (n_grid ?k)) identity_schedule (grid_dim ?k))
                   {3, 70000, 40000} ! i = Some g \<and>
                g = 1 + Max ((\<lambda>x. identity_schedule x ! i mod grid_dim ?k ! i) ` {3, 70000, 40000})"
    by blast
  then have "\<exists>g. extract_grid_size ?k
                   (set_schedule_modulo (nat (n_grid ?k)) identity_schedule (grid_dim ?k))
                   {3, 70000, 40000} ! 0 = Some g \<and>
                g = 1 + Max ((\<lambda>x. identity_schedule x ! 0 mod grid_dim ?k ! 0) ` {3, 70000, 40000})"
    by (simp add: n)
  moreover have "1 + Max ((\<lambda>x. identity_schedule x ! 0 mod grid_dim ?k ! 0) ` {3, 70000, 40000}) = 7233"
    by (simp add: identity_schedule_def private_gen_def)
  ultimately have a: "extract_grid_size ?k
                   (set_schedule_modulo (nat (n_grid ?k)) identity_schedule (grid_dim ?k))
                   {3, 70000, 40000} ! 0 = Some 7233"
    by auto
  from t have "\<forall>x. \<forall>i<nat (n_grid ?k).
            extract_grid_size ?k (set_schedule_modulo (nat (n_grid ?k)) identity_schedule (grid_dim ?k)) {x} ! i =
              Some (1 + identity_schedule x ! i mod grid_dim ?k ! i)"
    by blast
  then have "extract_grid_size ?k (set_schedule_modulo (nat (n_grid ?k)) identity_schedule (grid_dim ?k)) {40000} ! 0 =
              Some (1 + identity_schedule 40000 ! 0 mod grid_dim ?k ! 0)"
    by (simp add: n)
  then have b: "extract_grid_size ?k (set_schedule_modulo (nat (n_grid ?k)) identity_schedule (grid_dim ?k)) {40000} ! 0 =
              Some 7233"
    by (simp add: identity_schedule_def private_gen_def)
  from h2 p a b show ?thesis by (intro conjI)
qed

end
